theory Spec2Isabelle
  imports Main "HOL-Library.AList"
begin

section \<open>Text: characters, case folding and the table patterns\<close>

text \<open>
  The query text is a Python \<open>str\<close>. It is modelled as a \<open>string\<close> of ASCII characters:
  \<open>\s\<close>, \<open>\w\<close> and \<open>str.upper\<close> below are the ASCII restrictions of what Python's
  \<open>re\<close> and \<open>str\<close> do on Unicode text.
\<close>

definition is_space :: "char \<Rightarrow> bool" where
  \<comment> \<open>\<open>\s\<close> on ASCII: TAB, LF, VT, FF, CR, the separators 0x1C..0x1F, and SPACE.\<close>
  "is_space c = (let n = (of_char c :: nat) in (9 \<le> n \<and> n \<le> 13) \<or> (28 \<le> n \<and> n \<le> 32))"

definition is_lower :: "char \<Rightarrow> bool" where
  "is_lower c = (let n = (of_char c :: nat) in 97 \<le> n \<and> n \<le> 122)"

definition is_word :: "char \<Rightarrow> bool" where
  \<comment> \<open>\<open>\w\<close> on ASCII: letters, digits and the underscore.\<close>
  "is_word c = (let n = (of_char c :: nat) in
     (48 \<le> n \<and> n \<le> 57) \<or> (65 \<le> n \<and> n \<le> 90) \<or> n = 95 \<or> (97 \<le> n \<and> n \<le> 122))"

definition upper_char :: "char \<Rightarrow> char" where
  "upper_char c = (if is_lower c then char_of ((of_char c :: nat) - 32) else c)"

definition upper :: "string \<Rightarrow> string" where
  \<comment> \<open>\<open>sql.upper()\<close>\<close>
  "upper s = map upper_char s"

text \<open>A literal keyword at the start of the text; the result is the text after it.\<close>

fun lit :: "string \<Rightarrow> string \<Rightarrow> string option" where
  "lit [] s = Some s"
| "lit (k # ks) [] = None"
| "lit (k # ks) (c # cs) = (if k = c then lit ks cs else None)"

definition spaces1 :: "string \<Rightarrow> string option" where
  \<comment> \<open>\<open>\s+\<close>, greedy: at least one white-space character, then all that follow.\<close>
  "spaces1 s = (case s of [] \<Rightarrow> None
                | c # cs \<Rightarrow> if is_space c then Some (dropWhile is_space cs) else None)"

definition ident :: "string \<Rightarrow> (string \<times> string) option" where
  \<comment> \<open>The group \<open>(\w+(?:\.\w+)?)\<close>, greedy: the captured identifier and the text after it.\<close>
  "ident s =
     (let w = takeWhile is_word s; r = dropWhile is_word s in
      if w = [] then None
      else (case r of
              [] \<Rightarrow> Some (w, r)
            | d # r' \<Rightarrow>
                if d = CHR ''.'' \<and> takeWhile is_word r' \<noteq> []
                then Some (w @ d # takeWhile is_word r', dropWhile is_word r')
                else Some (w, r)))"

text \<open>
  A table pattern is a list of keywords \<open>k\<^sub>1 \<dots> k\<^sub>n\<close> standing for the regular expression
  \<open>k\<^sub>1\s+ \<dots> k\<^sub>n\s+(\w+(?:\.\w+)?)\<close>. \<open>match_at\<close> matches it at the start of the text and
  gives the captured group and the text after the match.
\<close>

fun match_at :: "string list \<Rightarrow> string \<Rightarrow> (string \<times> string) option" where
  "match_at [] s = ident s"
| "match_at (k # ks) s =
     (case lit k s of
        None \<Rightarrow> None
      | Some r \<Rightarrow> (case spaces1 r of None \<Rightarrow> None | Some r' \<Rightarrow> match_at ks r'))"

lemma lit_length: "lit k s = Some r \<Longrightarrow> length r \<le> length s"
  by (induction k s rule: lit.induct) (auto split: if_splits)

lemma spaces1_length: "spaces1 s = Some r \<Longrightarrow> length r < length s"
  by (auto simp: spaces1_def split: list.splits if_splits
      intro: le_imp_less_Suc length_dropWhile_le)

lemma ident_length: "ident s = Some (g, r) \<Longrightarrow> length r < length s"
proof -
  assume a: "ident s = Some (g, r)"
  have w: "takeWhile is_word s \<noteq> []"
    using a by (auto simp: ident_def Let_def split: if_splits)
  then have l: "length (dropWhile is_word s) < length s"
    by (metis length_greater_0_conv length_append takeWhile_dropWhile_id
        less_add_same_cancel2)
  have "r = dropWhile is_word s \<or>
        (\<exists>d r'. dropWhile is_word s = d # r' \<and> r = dropWhile is_word r')"
    using a w by (auto simp: ident_def Let_def split: list.splits if_splits)
  then show ?thesis
  proof
    assume "r = dropWhile is_word s"
    with l show ?thesis by simp
  next
    assume "\<exists>d r'. dropWhile is_word s = d # r' \<and> r = dropWhile is_word r'"
    then obtain d r' where c: "dropWhile is_word s = d # r'" and r: "r = dropWhile is_word r'"
      by blast
    have "length r \<le> length r'" unfolding r by (rule length_dropWhile_le)
    moreover have "length r' < length (dropWhile is_word s)" unfolding c by simp
    ultimately show ?thesis using l by linarith
  qed
qed

lemma match_at_length: "match_at ks s = Some (g, r) \<Longrightarrow> length r < length s"
proof (induction ks arbitrary: s)
  case Nil
  then show ?case by (simp add: ident_length)
next
  case (Cons k ks)
  then show ?case
    by (fastforce split: option.splits dest: lit_length spaces1_length)
qed

text \<open>
  \<open>re.findall\<close> for a table pattern: scan from the left; after a match continue behind it
  (matches do not overlap), otherwise move on by one character. The result lists the
  captured groups.
\<close>

function findall :: "string list \<Rightarrow> string \<Rightarrow> string list" where
  "findall ks [] = []"
| "findall ks (c # cs) =
     (case match_at ks (c # cs) of
        Some (g, r) \<Rightarrow> g # findall ks r
      | None \<Rightarrow> findall ks cs)"
  by pat_completeness auto
termination
  by (relation "measure (\<lambda>(ks, s). length s)") (auto dest: match_at_length)

definition from_pattern :: "string list" where "from_pattern = [''FROM'']"
definition join_pattern :: "string list" where "join_pattern = [''JOIN'']"
definition insert_pattern :: "string list" where "insert_pattern = [''INSERT'', ''INTO'']"
definition update_pattern :: "string list" where "update_pattern = [''UPDATE'']"
definition delete_pattern :: "string list" where "delete_pattern = [''DELETE'', ''FROM'']"

text \<open>
  \<open>_parse_sql_tables\<close>. A Python set is a duplicate-free list here (the order in which
  Python iterates over a set is not specified; the list keeps the order of first
  occurrence); \<open>set\<close> of it is the set the source returns.
\<close>

definition parse_sql_tables :: "string \<Rightarrow> string list \<times> string list" where
  "parse_sql_tables sql =
     (let sql_upper = upper sql;
          source_tables = remdups (findall from_pattern sql_upper @ findall join_pattern sql_upper);
          target_tables = remdups (findall insert_pattern sql_upper
                                   @ findall update_pattern sql_upper
                                   @ findall delete_pattern sql_upper)
      in (source_tables, target_tables))"

section \<open>The component tree\<close>

text \<open>
  \<open>ET.parse\<close> gives a tree of elements: a tag (a namespaced tag is written
  \<open>{uri}local\<close>), an attribute dictionary, the text before the first child (\<open>None\<close> when
  there is none) and the children in document order.
\<close>

datatype xml = Element (xml_tag: string) (xml_attrib: "(string \<times> string) list")
  (xml_text: "string option") (xml_children: "xml list")

definition attr_get :: "xml \<Rightarrow> string \<Rightarrow> string option" where
  \<comment> \<open>\<open>elem.get(key)\<close>\<close>
  "attr_get e k = map_of (xml_attrib e) k"

definition attr_get_default :: "xml \<Rightarrow> string \<Rightarrow> string \<Rightarrow> string" where
  \<comment> \<open>\<open>elem.get(key, default)\<close>\<close>
  "attr_get_default e k d = (case attr_get e k of None \<Rightarrow> d | Some v \<Rightarrow> v)"

fun iter :: "xml \<Rightarrow> xml list" where
  "iter (Element t a x cs) = Element t a x cs # concat (map iter cs)"

definition descendants :: "xml \<Rightarrow> xml list" where
  \<comment> \<open>The elements a path starting with \<open>.//\<close> ranges over: all of \<open>elem.iter()\<close> but \<open>elem\<close>.\<close>
  "descendants e = concat (map iter (xml_children e))"

definition findall_tag :: "xml \<Rightarrow> string \<Rightarrow> xml list" where
  \<comment> \<open>\<open>elem.findall('.//tag')\<close>\<close>
  "findall_tag e t = filter (\<lambda>x. xml_tag x = t) (descendants e)"

definition findall_attr :: "xml \<Rightarrow> string \<Rightarrow> string \<Rightarrow> string \<Rightarrow> xml list" where
  \<comment> \<open>\<open>elem.findall('.//tag[@key="value"]')\<close>\<close>
  "findall_attr e t k v = filter (\<lambda>x. attr_get x k = Some v) (findall_tag e t)"

definition dts :: "string \<Rightarrow> string" where
  \<comment> \<open>A name in the namespace bound to the prefix \<open>DTS\<close>.\<close>
  "dts n = ''{www.microsoft.com/SqlServer/Dts}'' @ n"

section \<open>Entities and the extractor state\<close>

record DataAsset =
  a_id :: string
  a_name :: string
  a_type :: string
  a_schema :: "string option"
  a_database :: "string option"
  a_columns :: "string list option"

record DataTransformation =
  t_id :: string
  t_name :: string
  t_type :: string
  t_source_assets :: "string list option"
  t_target_assets :: "string list option"
  t_transformation_logic :: "string option"

text \<open>
  A Python dictionary keeps its keys in insertion order, and an assignment to a key it
  has keeps the key's position: an association list with in-place update.
\<close>

definition dict_set :: "('k \<times> 'v) list \<Rightarrow> 'k \<Rightarrow> 'v \<Rightarrow> ('k \<times> 'v) list" where
  \<comment> \<open>\<open>d[k] = v\<close>\<close>
  "dict_set d k v = AList.update k v d"

definition dict_get :: "('k \<times> 'v) list \<Rightarrow> 'k \<Rightarrow> 'v option" where
  \<comment> \<open>\<open>d.get(k)\<close>\<close>
  "dict_get d k = map_of d k"

definition dict_keys :: "('k \<times> 'v) list \<Rightarrow> 'k list" where
  "dict_keys d = map fst d"

definition dict_values :: "('k \<times> 'v) list \<Rightarrow> 'v list" where
  "dict_values d = map snd d"

definition dict_update :: "('k \<times> 'v) list \<Rightarrow> ('k \<times> 'v) list \<Rightarrow> ('k \<times> 'v) list" where
  \<comment> \<open>\<open>d.update(other)\<close>\<close>
  "dict_update d other = foldl (\<lambda>acc (k, v). dict_set acc k v) d other"

record extractor =
  assets :: "(string \<times> DataAsset) list"
  transformations :: "(string \<times> DataTransformation) list"

definition init :: extractor where
  \<comment> \<open>\<open>SSISLineageExtractor.__init__\<close>\<close>
  "init = \<lparr>assets = [], transformations = []\<rparr>"

section \<open>Extraction\<close>

definition extract_table_name :: "xml \<Rightarrow> string option" where
  "extract_table_name component =
     (case find (\<lambda>prop. attr_get prop ''name'' \<in> {Some ''OpenRowset'', Some ''TableOrViewName''})
                (findall_tag component ''property'') of
        None \<Rightarrow> None
      | Some prop \<Rightarrow> xml_text prop)"

fun contains :: "string \<Rightarrow> string \<Rightarrow> bool" where
  \<comment> \<open>\<open>sub in s\<close>\<close>
  "contains sub [] = (sub = [])"
| "contains sub (c # cs) = (lit sub (c # cs) \<noteq> None \<or> contains sub cs)"

definition extract_sql_statement :: "xml \<Rightarrow> string option" where
  "extract_sql_statement task =
     (case find (\<lambda>prop. contains ''SQL'' (attr_get_default prop ''name'' ''''))
                (findall_tag task ''property'') of
        None \<Rightarrow> None
      | Some prop \<Rightarrow> xml_text prop)"

definition py_or :: "string option \<Rightarrow> string \<Rightarrow> string" where
  \<comment> \<open>\<open>a or b\<close>: \<open>b\<close> when \<open>a\<close> is \<open>None\<close> or the empty string\<close>
  "py_or a b = (case a of None \<Rightarrow> b | Some s \<Rightarrow> if s = [] then b else s)"

definition source_step :: "string \<Rightarrow> extractor \<Rightarrow> xml \<Rightarrow> extractor" where
  \<comment> \<open>the body of \<open>for source in sources\<close>\<close>
  "source_step package_name st source =
     (let source_name = attr_get_default source ''name'' ''Unknown Source'';
          table_name = extract_table_name source;
          asset_id = package_name @ ''_'' @ source_name
      in st\<lparr>assets := dict_set (assets st) asset_id
            \<lparr>a_id = asset_id, a_name = py_or table_name source_name, a_type = ''source_table'',
             a_schema = Some ''dbo'', a_database = None, a_columns = None\<rparr>\<rparr>)"

definition dest_step :: "string \<Rightarrow> extractor \<Rightarrow> xml \<Rightarrow> extractor" where
  \<comment> \<open>the body of \<open>for dest in destinations\<close>\<close>
  "dest_step package_name st dest =
     (let dest_name = attr_get_default dest ''name'' ''Unknown Destination'';
          table_name = extract_table_name dest;
          asset_id = package_name @ ''_'' @ dest_name
      in st\<lparr>assets := dict_set (assets st) asset_id
            \<lparr>a_id = asset_id, a_name = py_or table_name dest_name, a_type = ''target_table'',
             a_schema = Some ''dbo'', a_database = None, a_columns = None\<rparr>\<rparr>)"

definition ids_of_type :: "(string \<times> DataAsset) list \<Rightarrow> string \<Rightarrow> string list" where
  \<comment> \<open>\<open>[a.id for a in self.assets.values() if a.type == ty]\<close>\<close>
  "ids_of_type d ty = map a_id (filter (\<lambda>a. a_type a = ty) (dict_values d))"

definition data_flow_step :: "string \<Rightarrow> extractor \<Rightarrow> xml \<Rightarrow> extractor" where
  \<comment> \<open>the body of \<open>for df in data_flows\<close>\<close>
  "data_flow_step package_name st df =
     (let df_name = attr_get_default df (dts ''ObjectName'') ''Unknown'';
          sources = findall_attr df ''component'' ''componentClassID'' ''Microsoft.OLEDBSource'';
          st1 = foldl (source_step package_name) st sources;
          destinations =
            findall_attr df ''component'' ''componentClassID'' ''Microsoft.OLEDBDestination'';
          st2 = foldl (dest_step package_name) st1 destinations;
          trans_id = package_name @ ''_'' @ df_name
      in st2\<lparr>transformations := dict_set (transformations st2) trans_id
            \<lparr>t_id = trans_id, t_name = df_name, t_type = ''ssis_dataflow'',
             t_source_assets = Some (ids_of_type (assets st2) ''source_table''),
             t_target_assets = Some (ids_of_type (assets st2) ''target_table''),
             t_transformation_logic = None\<rparr>\<rparr>)"

definition extract_data_flows :: "extractor \<Rightarrow> xml \<Rightarrow> string \<Rightarrow> extractor" where
  "extract_data_flows st root package_name =
     foldl (data_flow_step package_name) st
       (findall_attr root (dts ''Executable'') (dts ''ExecutableType'') ''Microsoft.Pipeline'')"

definition sql_asset_step :: "string \<Rightarrow> string \<Rightarrow> extractor \<Rightarrow> string \<Rightarrow> extractor" where
  \<comment> \<open>the body of \<open>for table in source_tables\<close> and of \<open>for table in target_tables\<close>\<close>
  "sql_asset_step package_name ty st table =
     (let asset_id = package_name @ ''_'' @ table
      in st\<lparr>assets := dict_set (assets st) asset_id
            \<lparr>a_id = asset_id, a_name = table, a_type = ty,
             a_schema = None, a_database = None, a_columns = None\<rparr>\<rparr>)"

definition sql_task_step :: "string \<Rightarrow> extractor \<Rightarrow> xml \<Rightarrow> extractor" where
  \<comment> \<open>the body of \<open>for task in sql_tasks\<close>\<close>
  "sql_task_step package_name st task =
     (let task_name = attr_get_default task (dts ''ObjectName'') ''Unknown SQL Task''
      in case extract_sql_statement task of
           None \<Rightarrow> st
         | Some sql_statement \<Rightarrow>
             if sql_statement = [] then st
             else
               (let (source_tables, target_tables) = parse_sql_tables sql_statement;
                    st1 = foldl (sql_asset_step package_name ''source_table'') st source_tables;
                    st2 = foldl (sql_asset_step package_name ''target_table'') st1 target_tables;
                    trans_id = package_name @ ''_'' @ task_name
                in st2\<lparr>transformations := dict_set (transformations st2) trans_id
                      \<lparr>t_id = trans_id, t_name = task_name, t_type = ''sql_task'',
                       t_source_assets = None, t_target_assets = None,
                       t_transformation_logic = Some (take 500 sql_statement)\<rparr>\<rparr>))"

definition extract_sql_tasks :: "extractor \<Rightarrow> xml \<Rightarrow> string \<Rightarrow> extractor" where
  "extract_sql_tasks st root package_name =
     foldl (sql_task_step package_name) st
       (findall_attr root (dts ''Executable'') (dts ''ExecutableType'') ''Microsoft.ExecuteSQLTask'')"

text \<open>
  What \<open>ET.parse(dtsx_path)\<close> meets at a path: no file, a file that is not well-formed
  (both raise), or a document, whose root element it gives.
\<close>

datatype dtsx_file = Missing | NotWellFormed | Document xml

datatype error = FileNotFoundError | ParseError

definition parse :: "dtsx_file \<Rightarrow> error + xml" where
  "parse f = (case f of Missing \<Rightarrow> Inl FileNotFoundError
              | NotWellFormed \<Rightarrow> Inl ParseError
              | Document root \<Rightarrow> Inr root)"

text \<open>
  \<open>extract_from_dtsx\<close> takes the package name, which the source computes as
  \<open>Path(dtsx_path).stem\<close>, and the file. \<open>extract_try\<close> is its \<open>try\<close> block: parsing is
  the only step that raises, and it comes before any assignment to the extractor;
  \<open>_extract_connections\<close> only writes to the log and is left out. The \<open>except\<close> clause
  answers an exception with two empty dictionaries. The result is the extractor after
  the call and the pair returned.
\<close>

type_synonym extraction = "(string \<times> DataAsset) list \<times> (string \<times> DataTransformation) list"

definition extract_try :: "extractor \<Rightarrow> string \<Rightarrow> dtsx_file \<Rightarrow> error + extractor \<times> extraction" where
  "extract_try st package_name f =
     (case parse f of
        Inl e \<Rightarrow> Inl e
      | Inr root \<Rightarrow>
          (let st1 = extract_data_flows st root package_name;
               st2 = extract_sql_tasks st1 root package_name
           in Inr (st2, (assets st2, transformations st2))))"

definition extract_from_dtsx :: "extractor \<Rightarrow> string \<Rightarrow> dtsx_file \<Rightarrow> extractor \<times> extraction" where
  "extract_from_dtsx st package_name f =
     (case extract_try st package_name f of
        Inr r \<Rightarrow> r
      | Inl e \<Rightarrow> (st, ([], [])))"

text \<open>
  The loop of \<open>main\<close> over the packages, one \<open>(package name, file)\<close> pair each;
  \<open>Path(package).exists()\<close> is false for a missing file.
\<close>

record batch =
  ssis_extractor :: extractor
  all_assets :: "(string \<times> DataAsset) list"
  all_transformations :: "(string \<times> DataTransformation) list"

definition main_step :: "batch \<Rightarrow> string \<times> dtsx_file \<Rightarrow> batch" where
  "main_step b package =
     (if snd package = Missing then b
      else
        (let (st, (assets', transformations')) =
               extract_from_dtsx (ssis_extractor b) (fst package) (snd package)
         in \<lparr>ssis_extractor = st,
             all_assets = dict_update (all_assets b) assets',
             all_transformations = dict_update (all_transformations b) transformations'\<rparr>))"

definition main_loop :: "(string \<times> dtsx_file) list \<Rightarrow> batch" where
  "main_loop ssis_packages =
     foldl main_step \<lparr>ssis_extractor = init, all_assets = [], all_transformations = []\<rparr>
       ssis_packages"

section \<open>The graph store\<close>

text \<open>
  \<open>LineageGraphBuilder\<close> keeps the graph in a Neo4j database and talks to it in Cypher.
  The store is modelled as the list of its nodes and the list of its relationships;
  a node or a relationship is identified by its position, so that two nodes with the
  same properties, or two relationships between the same nodes, stay distinct.
\<close>

datatype label = Asset | Transformation

datatype rel_type = FEEDS_INTO | PRODUCES

record node =
  n_label :: label
  n_id :: string
  n_name :: string
  n_type :: string
  n_schema :: "string option"
  n_database :: "string option"
  n_logic :: "string option"

record rel =
  r_type :: rel_type
  r_start :: nat
  r_end :: nat

record graph =
  nodes :: "node list"
  rels :: "rel list"

definition wf_graph :: "graph \<Rightarrow> bool" where
  \<comment> \<open>every relationship of the store joins two of its nodes\<close>
  "wf_graph g = list_all (\<lambda>r. r_start r < length (nodes g) \<and> r_end r < length (nodes g)) (rels g)"

definition match_nodes :: "graph \<Rightarrow> label \<Rightarrow> string \<Rightarrow> nat list" where
  \<comment> \<open>\<open>MATCH (x:Label {id: $id})\<close>\<close>
  "match_nodes g l i =
     filter (\<lambda>n. n_label (nodes g ! n) = l \<and> n_id (nodes g ! n) = i) [0..<length (nodes g)]"

definition create_rels :: "graph \<Rightarrow> rel_type \<Rightarrow> nat list \<Rightarrow> nat list \<Rightarrow> graph" where
  \<comment> \<open>\<open>MATCH (x ...) MATCH (y ...) CREATE (x)-[:TYPE]->(y)\<close>: one relationship for each pair matched\<close>
  "create_rels g ty xs ys =
     g\<lparr>rels := rels g @ concat (map (\<lambda>x. map (\<lambda>y. \<lparr>r_type = ty, r_start = x, r_end = y\<rparr>) ys) xs)\<rparr>"

definition create_asset :: "graph \<Rightarrow> DataAsset \<Rightarrow> graph" where
  \<comment> \<open>the body of \<open>for asset in assets.values()\<close>\<close>
  "create_asset g asset =
     g\<lparr>nodes := nodes g @
         [\<lparr>n_label = Asset, n_id = a_id asset, n_name = a_name asset, n_type = a_type asset,
           n_schema = a_schema asset, n_database = a_database asset, n_logic = None\<rparr>]\<rparr>"

definition create_transformation :: "graph \<Rightarrow> DataTransformation \<Rightarrow> graph" where
  \<comment> \<open>the body of \<open>for trans in transformations.values()\<close>\<close>
  "create_transformation g tr =
     (let g1 = g\<lparr>nodes := nodes g @
                 [\<lparr>n_label = Transformation, n_id = t_id tr, n_name = t_name tr,
                   n_type = t_type tr, n_schema = None, n_database = None,
                   n_logic = t_transformation_logic tr\<rparr>]\<rparr>;
          g2 = (case t_source_assets tr of
                  None \<Rightarrow> g1
                | Some source_assets \<Rightarrow>
                    foldl (\<lambda>h source_id.
                             create_rels h FEEDS_INTO (match_nodes h Asset source_id)
                               (match_nodes h Transformation (t_id tr)))
                          g1 source_assets);
          g3 = (case t_target_assets tr of
                  None \<Rightarrow> g2
                | Some target_assets \<Rightarrow>
                    foldl (\<lambda>h target_id.
                             create_rels h PRODUCES (match_nodes h Transformation (t_id tr))
                               (match_nodes h Asset target_id))
                          g2 target_assets)
      in g3)"

definition create_lineage_graph ::
  "(string \<times> DataAsset) list \<Rightarrow> (string \<times> DataTransformation) list \<Rightarrow> graph" where
  \<comment> \<open>the store is emptied first (\<open>MATCH (n) DETACH DELETE n\<close>)\<close>
  "create_lineage_graph assets' transformations' =
     foldl create_transformation
       (foldl create_asset \<lparr>nodes = [], rels = []\<rparr> (dict_values assets'))
       (dict_values transformations')"

text \<open>
  A variable-length pattern \<open>-[:TYPE*..n]->\<close> matches every directed path of one to \<open>n\<close>
  relationships of that type in which no relationship occurs twice. \<open>expand\<close> lists
  these paths from a node, each as the list of its relationships; \<open>used\<close> are the
  relationships already on the path.
\<close>

fun expand :: "rel list \<Rightarrow> rel_type \<Rightarrow> nat \<Rightarrow> nat list \<Rightarrow> nat \<Rightarrow> nat list list" where
  "expand R ty 0 used v = []"
| "expand R ty (Suc n) used v =
     concat (map (\<lambda>i. if i \<notin> set used \<and> r_type (R ! i) = ty \<and> r_start (R ! i) = v
                       then [i] # map ((#) i) (expand R ty n (i # used) (r_end (R ! i)))
                       else [])
                 [0..<length R])"

definition path_nodes :: "rel list \<Rightarrow> nat \<times> nat list \<Rightarrow> nat list" where
  \<comment> \<open>\<open>path.nodes\<close> of the path that starts at a node and follows the relationships\<close>
  "path_nodes R p = fst p # map (\<lambda>i. r_end (R ! i)) (snd p)"

definition max_hops :: nat where
  \<comment> \<open>the bound written in the two patterns, \<open>*..10\<close>\<close>
  "max_hops = 10"

definition match_paths ::
  "graph \<Rightarrow> rel_type \<Rightarrow> (node \<Rightarrow> bool) \<Rightarrow> (node \<Rightarrow> bool) \<Rightarrow> (nat \<times> nat list) list" where
  \<comment> \<open>\<open>MATCH path = (source ...)-[:TYPE*..10]->(target ...)\<close>\<close>
  "match_paths g ty is_source is_target =
     concat (map (\<lambda>s. filter (\<lambda>p. is_target (nodes g ! last (path_nodes (rels g) p)))
                          (map (Pair s) (expand (rels g) ty max_hops [] s)))
                 (filter (\<lambda>s. is_source (nodes g ! s)) [0..<length (nodes g)]))"

record path_entry =
  p_id :: string
  p_name :: string
  p_type :: label

definition get_lineage_for_asset :: "graph \<Rightarrow> string \<Rightarrow> string \<times> path_entry list list" where
  \<comment> \<open>\<open>UNION\<close> drops repeated rows; the result is the pair \<open>(asset, lineage_paths)\<close>\<close>
  "get_lineage_for_asset g asset_name =
     (let result = remdups
            (match_paths g FEEDS_INTO (\<lambda>n. n_label n = Asset)
                 (\<lambda>n. n_label n = Asset \<and> n_name n = asset_name)
             @ match_paths g PRODUCES (\<lambda>n. n_label n = Asset \<and> n_name n = asset_name)
                 (\<lambda>n. n_label n = Asset));
          paths = map (\<lambda>p. map (\<lambda>i. \<lparr>p_id = n_id (nodes g ! i), p_name = n_name (nodes g ! i),
                                      p_type = n_label (nodes g ! i)\<rparr>)
                               (path_nodes (rels g) p))
                      result
      in (asset_name, paths))"

section \<open>Query texts made of clauses\<close>

text \<open>
  The texts for which the resolver is exact. A clause is a keyword, white space, one
  identifier, and the text that follows up to the next clause; the two words of
  \<open>INSERT INTO\<close> and \<open>DELETE FROM\<close> have white space between them. The text is the part
  before the first clause and then the clauses. It is well formed when no identifier and
  no text between clauses contains one of the \<open>key_words\<close>, an identifier is one match of
  \<open>\w+(?:\.\w+)?\<close>, the text after an identifier does not go on with a word character or
  a dot, and the text before a keyword does not end in a word character.
\<close>

datatype clause_kw = From | Join | Update | InsertInto string | DeleteFrom string

fun kw_text :: "clause_kw \<Rightarrow> string" where
  "kw_text From = ''FROM''"
| "kw_text Join = ''JOIN''"
| "kw_text Update = ''UPDATE''"
| "kw_text (InsertInto w) = ''INSERT'' @ w @ ''INTO''"
| "kw_text (DeleteFrom w) = ''DELETE'' @ w @ ''FROM''"

fun is_source :: "clause_kw \<Rightarrow> bool" where
  "is_source From = True"
| "is_source Join = True"
| "is_source (DeleteFrom w) = True"
| "is_source Update = False"
| "is_source (InsertInto w) = False"

fun is_target :: "clause_kw \<Rightarrow> bool" where
  "is_target Update = True"
| "is_target (InsertInto w) = True"
| "is_target (DeleteFrom w) = True"
| "is_target From = False"
| "is_target Join = False"

record clause =
  c_kw :: clause_kw
  c_space :: string
  c_ident :: string
  c_rest :: string

definition clause_text :: "clause \<Rightarrow> string" where
  "clause_text c = kw_text (c_kw c) @ c_space c @ c_ident c @ c_rest c"

definition clauses_text :: "string \<Rightarrow> clause list \<Rightarrow> string" where
  "clauses_text f0 cs = f0 @ concat (map clause_text cs)"

definition key_words :: "string list" where
  "key_words = [''FROM'', ''JOIN'', ''INSERT'', ''UPDATE'', ''DELETE'']"

definition keyword_free :: "string \<Rightarrow> bool" where
  "keyword_free x = list_all (\<lambda>k. \<not> contains k x) key_words"

definition white :: "string \<Rightarrow> bool" where
  "white w = (w \<noteq> [] \<and> list_all is_space w)"

definition is_identifier :: "string \<Rightarrow> bool" where
  "is_identifier i = (ident i = Some (i, []))"

definition starts_clean :: "string \<Rightarrow> bool" where
  "starts_clean f = (case f of [] \<Rightarrow> True | c # _ \<Rightarrow> \<not> is_word c \<and> c \<noteq> CHR ''.'')"

definition ends_clean :: "string \<Rightarrow> bool" where
  "ends_clean f = (case rev f of [] \<Rightarrow> True | c # _ \<Rightarrow> \<not> is_word c)"

fun wf_kw :: "clause_kw \<Rightarrow> bool" where
  "wf_kw (InsertInto w) = white w"
| "wf_kw (DeleteFrom w) = white w"
| "wf_kw k = True"

definition wf_clause :: "clause \<Rightarrow> bool" where
  "wf_clause c = (wf_kw (c_kw c) \<and> white (c_space c) \<and> is_identifier (c_ident c)
                  \<and> keyword_free (c_ident c) \<and> keyword_free (c_rest c) \<and> starts_clean (c_rest c))"

fun wf_clauses :: "clause list \<Rightarrow> bool" where
  "wf_clauses [] = True"
| "wf_clauses [c] = wf_clause c"
| "wf_clauses (c # d # cs) =
     (wf_clause c \<and> c_rest c \<noteq> [] \<and> ends_clean (c_rest c) \<and> wf_clauses (d # cs))"

definition wf_text :: "string \<Rightarrow> clause list \<Rightarrow> bool" where
  "wf_text f0 cs = (keyword_free f0 \<and> ends_clean f0 \<and> wf_clauses cs)"

text \<open>
  For the proofs: the five patterns of the resolver, which pattern captures the
  identifier of which clause, what a pattern finds in one clause, and what is asked of
  the text from an identifier on.
\<close>

definition patterns :: "string list list" where
  "patterns = [from_pattern, join_pattern, insert_pattern, update_pattern, delete_pattern]"

fun captures :: "string list \<Rightarrow> clause_kw \<Rightarrow> bool" where
  "captures ks From = (ks = from_pattern)"
| "captures ks Join = (ks = join_pattern)"
| "captures ks Update = (ks = update_pattern)"
| "captures ks (InsertInto w) = (ks = insert_pattern)"
| "captures ks (DeleteFrom w) = (ks = delete_pattern \<or> ks = from_pattern)"

definition hits :: "string list \<Rightarrow> clause \<Rightarrow> string list" where
  "hits ks c = (if captures ks (c_kw c) then [c_ident c] else [])"

definition tail_ok :: "string \<Rightarrow> string \<Rightarrow> bool" where
  "tail_ok i r = (is_identifier i \<and> keyword_free i \<and> starts_clean r)"

section \<open>Example documents\<close>

definition component :: "string \<Rightarrow> string \<Rightarrow> xml" where
  "component cls n = Element ''component'' [(''componentClassID'', cls), (''name'', n)] None []"

definition dataflow :: "string \<Rightarrow> xml list \<Rightarrow> xml" where
  "dataflow n cs = Element (dts ''Executable'')
     [(dts ''ExecutableType'', ''Microsoft.Pipeline''), (dts ''ObjectName'', n)] None cs"

definition sqltask :: "string \<Rightarrow> string \<Rightarrow> string \<Rightarrow> xml" where
  "sqltask n prop sql = Element (dts ''Executable'')
     [(dts ''ExecutableType'', ''Microsoft.ExecuteSQLTask''), (dts ''ObjectName'', n)] None
     [Element ''property'' [(''name'', prop)] (Some sql) []]"

definition package :: "xml list \<Rightarrow> xml" where
  "package es = Element (dts ''Executable'') [(dts ''ExecutableType'', ''Microsoft.Package'')] None es"

definition load_customers :: xml where
  "load_customers = package [dataflow ''LoadCustomers''
     [component ''Microsoft.OLEDBSource'' ''StgCustomer'',
      component ''Microsoft.OLEDBDestination'' ''DimCustomer'']]"

definition same_name_flow :: xml where
  "same_name_flow = package [dataflow ''LoadCustomers''
     [component ''Microsoft.OLEDBSource'' ''X'',
      component ''Microsoft.OLEDBDestination'' ''X'']]"

definition customers_package :: xml where
  "customers_package = package
     [dataflow ''DF'' [component ''Microsoft.OLEDBSource'' ''CUSTOMERS''],
      sqltask ''Q'' ''SQLStatement'' ''select * from Customers'']"

definition insert_task :: xml where
  "insert_task = sqltask ''Q'' ''SQLStatement'' ''INSERT INTO DimCustomer SELECT * FROM StgCustomer''"

definition insert_task_mixed_case :: xml where
  "insert_task_mixed_case =
     sqltask ''Q'' ''SqlStatementSource'' ''INSERT INTO DimCustomer SELECT * FROM StgCustomer''"

definition two_flows :: xml where
  "two_flows = package
     [dataflow ''DF1'' [component ''Microsoft.OLEDBSource'' ''S1''],
      dataflow ''DF2'' [component ''Microsoft.OLEDBSource'' ''S2'']]"

definition two_flows_once :: extractor where
  "two_flows_once = fst (extract_from_dtsx init ''p'' (Document two_flows))"

definition two_flows_twice :: extractor where
  "two_flows_twice = fst (extract_from_dtsx two_flows_once ''p'' (Document two_flows))"





definition join_example :: "clause list" where
  "join_example =
     [\<lparr>c_kw = From, c_space = '' '', c_ident = ''CUSTOMERS'', c_rest = '' C ''\<rparr>,
      \<lparr>c_kw = Join, c_space = '' '', c_ident = ''ORDERS'', c_rest = '' O ON C.ID=O.CID''\<rparr>]"

definition all_kinds_query :: string where
  "all_kinds_query =
     ''delete from t1; update t2 set x=1; insert into dbo.t3 select * from\<newline> t4 join t5 on a=b''"

definition all_kinds_example :: "clause list" where
  "all_kinds_example =
     [\<lparr>c_kw = DeleteFrom '' '', c_space = '' '', c_ident = ''T1'', c_rest = ''; ''\<rparr>,
      \<lparr>c_kw = Update, c_space = '' '', c_ident = ''T2'', c_rest = '' SET X=1; ''\<rparr>,
      \<lparr>c_kw = InsertInto '' '', c_space = '' '', c_ident = ''DBO.T3'', c_rest = '' SELECT * ''\<rparr>,
      \<lparr>c_kw = From, c_space = ''\<newline> '', c_ident = ''T4'', c_rest = '' ''\<rparr>,
      \<lparr>c_kw = Join, c_space = '' '', c_ident = ''T5'', c_rest = '' ON A=B''\<rparr>]"

definition cyclic_graph :: graph where
  "cyclic_graph =
     \<lparr>nodes =
        [\<lparr>n_label = Asset, n_id = ''a'', n_name = ''A'', n_type = ''table'', n_schema = None,
          n_database = None, n_logic = None\<rparr>,
         \<lparr>n_label = Asset, n_id = ''b'', n_name = ''B'', n_type = ''table'', n_schema = None,
          n_database = None, n_logic = None\<rparr>],
      rels = [\<lparr>r_type = FEEDS_INTO, r_start = 0, r_end = 1\<rparr>,
              \<lparr>r_type = FEEDS_INTO, r_start = 1, r_end = 0\<rparr>]\<rparr>"

section \<open>What a call writes\<close>

text \<open>
  Two predicates for the proofs about repeated calls. A step \<open>writes_assets\<close> when its
  effect on the asset dictionary is a list of assignments that does not depend on the
  extractor it starts from, and \<open>writes_ids\<close> when the keys it assigns in the
  transformation dictionary do not; \<open>add_key\<close> is what an assignment does to the keys.
\<close>

definition add_key :: "'k list \<Rightarrow> 'k \<Rightarrow> 'k list" where
  "add_key ks k = (if k \<in> set ks then ks else ks @ [k])"

definition writes_assets :: "(extractor \<Rightarrow> extractor) \<Rightarrow> bool" where
  "writes_assets f \<longleftrightarrow> (\<exists>es. \<forall>st. assets (f st) = dict_update (assets st) es)"

definition writes_ids :: "(extractor \<Rightarrow> extractor) \<Rightarrow> bool" where
  "writes_ids f \<longleftrightarrow>
     (\<exists>ks. \<forall>st. dict_keys (transformations (f st)) = foldl add_key (dict_keys (transformations st)) ks)"

section \<open>Properties of the table patterns\<close>

lemma lit_Some: "lit k s = Some r \<longleftrightarrow> s = k @ r"
  by (induction k s rule: lit.induct) auto

lemma is_word_not_space: "is_word c \<Longrightarrow> \<not> is_space c"
  by (auto simp: is_word_def is_space_def Let_def)

lemma spaces1_Some:
  "spaces1 s = Some r \<Longrightarrow> \<exists>ws. s = ws @ r \<and> ws \<noteq> [] \<and> (\<forall>c\<in>set ws. is_space c)"
proof -
  assume a: "spaces1 s = Some r"
  then obtain c cs where s: "s = c # cs" and c: "is_space c" and r: "r = dropWhile is_space cs"
    by (auto simp: spaces1_def split: list.splits if_splits)
  have "s = (c # takeWhile is_space cs) @ r" using s r by simp
  moreover have "\<forall>x\<in>set (c # takeWhile is_space cs). is_space x"
    using c by (auto dest: set_takeWhileD)
  ultimately show ?thesis by blast
qed

lemma ident_Some:
  "ident s = Some (g, r) \<Longrightarrow> s = g @ r \<and> g \<noteq> [] \<and> (\<forall>c\<in>set g. \<not> is_space c)"
proof -
  assume a: "ident s = Some (g, r)"
  have dot: "\<not> is_space CHR ''.''" by (simp add: is_space_def)
  have w: "\<forall>c\<in>set (takeWhile is_word s). \<not> is_space c"
    by (auto dest: set_takeWhileD is_word_not_space)
  have s: "s = takeWhile is_word s @ dropWhile is_word s" by simp
  from a have "(g = takeWhile is_word s \<and> r = dropWhile is_word s \<and> g \<noteq> []) \<or>
     (\<exists>r'. dropWhile is_word s = CHR ''.'' # r' \<and> g = takeWhile is_word s @ CHR ''.'' # takeWhile is_word r'
        \<and> r = dropWhile is_word r')"
    by (auto simp: ident_def Let_def split: list.splits if_splits)
  then show ?thesis
  proof
    assume "g = takeWhile is_word s \<and> r = dropWhile is_word s \<and> g \<noteq> []"
    then show ?thesis using w s by metis
  next
    assume "\<exists>r'. dropWhile is_word s = CHR ''.'' # r' \<and> g = takeWhile is_word s @ CHR ''.'' # takeWhile is_word r'
        \<and> r = dropWhile is_word r'"
    then obtain r' where d: "dropWhile is_word s = CHR ''.'' # r'"
      and g: "g = takeWhile is_word s @ CHR ''.'' # takeWhile is_word r'"
      and r: "r = dropWhile is_word r'" by blast
    have "g @ r = takeWhile is_word s @ CHR ''.'' # r'" using g r by simp
    also have "\<dots> = s" using d s by metis
    finally have "s = g @ r" by simp
    moreover have "\<forall>c\<in>set g. \<not> is_space c"
      using g w dot by (auto dest: set_takeWhileD is_word_not_space)
    ultimately show ?thesis using g by simp
  qed
qed

lemma match_from_Some:
  assumes "match_at [''FROM''] s = Some (g, r)"
  shows "\<exists>sp. s = ''FROM'' @ sp @ g @ r \<and> sp \<noteq> [] \<and> (\<forall>c\<in>set sp. is_space c)
           \<and> g \<noteq> [] \<and> (\<forall>c\<in>set g. \<not> is_space c)"
proof -
  from assms obtain r1 r2 where 1: "lit ''FROM'' s = Some r1" and 2: "spaces1 r1 = Some r2"
    and 3: "ident r2 = Some (g, r)"
    by (auto split: option.splits)
  from 1 have s: "s = ''FROM'' @ r1" by (simp only: lit_Some)
  from spaces1_Some[OF 2] obtain sp where sp: "r1 = sp @ r2" "sp \<noteq> []" "\<forall>c\<in>set sp. is_space c"
    by blast
  from ident_Some[OF 3] have g: "r2 = g @ r" "g \<noteq> []" "\<forall>c\<in>set g. \<not> is_space c" by auto
  show ?thesis using s sp g by blast
qed

lemma match_at_suffix: "match_at ks s = Some (g, r) \<Longrightarrow> \<exists>pre. s = pre @ r"
proof (induction ks arbitrary: s)
  case Nil
  then show ?case using ident_Some by auto
next
  case (Cons k ks)
  from Cons.prems obtain r1 r2 where 1: "lit k s = Some r1" and 2: "spaces1 r1 = Some r2"
    and 3: "match_at ks r2 = Some (g, r)"
    by (auto split: option.splits)
  from 1 have "s = k @ r1" by (simp only: lit_Some)
  moreover from spaces1_Some[OF 2] obtain sp where "r1 = sp @ r2" by blast
  moreover from Cons.IH[OF 3] obtain pre where "r2 = pre @ r" by blast
  ultimately have "s = (k @ sp @ pre) @ r" by simp
  then show ?case by blast
qed

lemma findall_from_skip:
  "\<forall>c\<in>set ws. c \<noteq> CHR ''F'' \<Longrightarrow> findall [''FROM''] (ws @ t) = findall [''FROM''] t"
  by (induction ws) auto

lemma space_not_F: "is_space c \<Longrightarrow> c \<noteq> CHR ''F''"
  by (auto simp: is_space_def)

lemma from_no_space: "c \<in> set ''FROM'' \<Longrightarrow> \<not> is_space c"
  by (auto simp: is_space_def)

lemma findall_from_reach:
  assumes m: "match_at [''FROM''] t = Some (g, r)"
    and ws: "ws \<noteq> []" "\<forall>c\<in>set ws. is_space c"
  shows "(p = [] \<or> \<not> is_space (last p)) \<Longrightarrow> (\<forall>q. p \<noteq> q @ ''FROM'')
     \<Longrightarrow> g \<in> set (findall [''FROM''] (p @ ws @ t))"
proof (induction p rule: length_induct)
  case (1 p)
  from m obtain t' where t: "t = CHR ''F'' # t'"
    by (cases t) (auto split: if_splits)
  show ?case
  proof (cases p)
    case Nil
    have "findall [''FROM''] (ws @ t) = findall [''FROM''] t"
      using ws by (intro findall_from_skip) (auto dest: space_not_F)
    also have "g \<in> set \<dots>" using m t by simp
    finally show ?thesis using Nil by simp
  next
    case (Cons c p')
    show ?thesis
    proof (cases "match_at [''FROM''] (p @ ws @ t)")
      case None
      have "p' = [] \<or> \<not> is_space (last p')" using 1(2) Cons by (auto split: if_splits)
      moreover have "\<forall>q. p' \<noteq> q @ ''FROM''"
      proof (intro allI notI)
        fix q assume "p' = q @ ''FROM''"
        then have "p = (c # q) @ ''FROM''" using Cons by simp
        with 1(3) show False by blast
      qed
      moreover have "length p' < length p" using Cons by simp
      ultimately have "g \<in> set (findall [''FROM''] (p' @ ws @ t))"
        using 1(1) by blast
      then show ?thesis using None Cons by simp
    next
      case (Some a)
      obtain g' r' where a: "a = (g', r')" by (cases a)
      from match_from_Some[OF Some[unfolded a]] obtain sp where
        s: "p @ ws @ t = ''FROM'' @ sp @ g' @ r'" and sp: "sp \<noteq> []" "\<forall>c\<in>set sp. is_space c"
        and g': "g' \<noteq> []" "\<forall>c\<in>set g'. \<not> is_space c" by blast
      have fa: "findall [''FROM''] (p @ ws @ t) = g' # findall [''FROM''] r'"
        using Some a Cons by simp
      from s have "(''FROM'' @ sp @ g') @ r' = p @ (ws @ t)" by simp
      then obtain us where us: "(''FROM'' @ sp @ g' = p @ us \<and> us @ r' = ws @ t)
           \<or> ((''FROM'' @ sp @ g') @ us = p \<and> r' = us @ ws @ t)"
        unfolding append_eq_append_conv2 by blast
      have good: "g \<in> set (findall [''FROM''] r')"
        if p: "p = (''FROM'' @ sp @ g') @ us" and r': "r' = us @ ws @ t" for us
      proof -
        have l: "length us < length p" using p by simp
        have "us = [] \<or> \<not> is_space (last us)" using 1(2) p by (auto split: if_splits)
        moreover have "\<forall>q. us \<noteq> q @ ''FROM''"
        proof (intro allI notI)
          fix q assume "us = q @ ''FROM''"
          then have "p = ((''FROM'' @ sp @ g') @ q) @ ''FROM''" using p by simp
          with 1(3) show False by blast
        qed
        ultimately show ?thesis using 1(1) l r' by blast
      qed
      from us have "g \<in> set (findall [''FROM''] r')"
      proof
        assume "(''FROM'' @ sp @ g') @ us = p \<and> r' = us @ ws @ t"
        then show ?thesis using good by blast
      next
        assume b: "''FROM'' @ sp @ g' = p @ us \<and> us @ r' = ws @ t"
        show ?thesis
        proof (cases "us = []")
          case True
          with b good[of "[]"] show ?thesis by simp
        next
          case False
          with b ws have hd: "is_space (hd us)"
            by (cases us; cases ws) auto
          from b have "(''FROM'' @ sp) @ g' = p @ us" by simp
          then obtain vs where vs: "(''FROM'' @ sp = p @ vs \<and> vs @ g' = us)
             \<or> ((''FROM'' @ sp) @ vs = p \<and> g' = vs @ us)"
            unfolding append_eq_append_conv2 by blast
          then have False
          proof
            assume "(''FROM'' @ sp) @ vs = p \<and> g' = vs @ us"
            then have "hd us \<in> set g'" using False by simp
            with g' hd show False by blast
          next
            assume c: "''FROM'' @ sp = p @ vs \<and> vs @ g' = us"
            then obtain zs where zs: "(''FROM'' = p @ zs \<and> zs @ sp = vs)
               \<or> (''FROM'' @ zs = p \<and> sp = zs @ vs)"
              unfolding append_eq_append_conv2 by blast
            then show False
            proof
              assume d: "''FROM'' = p @ zs \<and> zs @ sp = vs"
              show False
              proof (cases "zs = []")
                case True
                with d have "p = [] @ ''FROM''" by simp
                with 1(3) show False by blast
              next
                case zne: False
                then have "hd us = hd zs" using c d by auto
                moreover have "hd zs \<in> set ''FROM''"
                  using zne d by (metis hd_in_set set_append UnCI)
                ultimately show False using hd from_no_space by metis
              qed
            next
              assume d: "''FROM'' @ zs = p \<and> sp = zs @ vs"
              show False
              proof (cases "zs = []")
                case True
                with d have "p = [] @ ''FROM''" by simp
                with 1(3) show False by blast
              next
                case zne: False
                then have "last p = last zs" using d by auto
                moreover have "is_space (last zs)" using zne d sp by simp
                moreover have "p \<noteq> []" using Cons by simp
                ultimately show False using 1(2) by simp
              qed
            qed
          qed
          then show ?thesis ..
        qed
      qed
      then show ?thesis using fa by simp
    qed
  qed
qed

lemma match_delete_Some:
  assumes "match_at [''DELETE'', ''FROM''] d = Some (g, r)"
  shows "\<exists>ws t. d = ''DELETE'' @ ws @ t \<and> ws \<noteq> [] \<and> (\<forall>c\<in>set ws. is_space c)
           \<and> match_at [''FROM''] t = Some (g, r)"
proof -
  from assms obtain r1 r2 where 1: "lit ''DELETE'' d = Some r1" and 2: "spaces1 r1 = Some r2"
    and 3: "match_at [''FROM''] r2 = Some (g, r)"
    by (auto split: option.splits)
  from 1 have s: "d = ''DELETE'' @ r1" by (simp only: lit_Some)
  from spaces1_Some[OF 2] obtain sp where sp: "r1 = sp @ r2" "sp \<noteq> []" "\<forall>c\<in>set sp. is_space c"
    by blast
  show ?thesis using s sp 3 by blast
qed

lemma delete_match_in_from:
  assumes "match_at [''DELETE'', ''FROM''] d = Some (g, r)"
  shows "g \<in> set (findall [''FROM''] (u @ d))"
proof -
  from match_delete_Some[OF assms] obtain ws t where
    d: "d = ''DELETE'' @ ws @ t" and ws: "ws \<noteq> []" "\<forall>c\<in>set ws. is_space c"
    and m: "match_at [''FROM''] t = Some (g, r)" by blast
  have 1: "(u @ ''DELETE'') = [] \<or> \<not> is_space (last (u @ ''DELETE''))"
    by (simp add: is_space_def)
  have 2: "\<forall>q. u @ ''DELETE'' \<noteq> q @ ''FROM''"
  proof (intro allI notI)
    fix q assume "u @ ''DELETE'' = q @ ''FROM''"
    then have "last (u @ ''DELETE'') = last (q @ ''FROM'')" by simp
    then show False by simp
  qed
  have "g \<in> set (findall [''FROM''] ((u @ ''DELETE'') @ ws @ t))"
    using findall_from_reach[OF m ws 1 2] .
  then show ?thesis using d by simp
qed

lemma findall_elem:
  "g \<in> set (findall ks s) \<Longrightarrow> \<exists>u d r. s = u @ d \<and> match_at ks d = Some (g, r)"
proof (induction ks s rule: findall.induct)
  case (1 ks)
  then show ?case by simp
next
  case (2 ks c cs)
  show ?case
  proof (cases "match_at ks (c # cs)")
    case None
    with 2(1,3) obtain u d r where "cs = u @ d" "match_at ks d = Some (g, r)" by auto
    then have "c # cs = (c # u) @ d \<and> match_at ks d = Some (g, r)" by simp
    then show ?thesis by blast
  next
    case (Some a)
    obtain g' r' where a: "a = (g', r')" by (cases a)
    from 2(3) Some a have "g = g' \<or> g \<in> set (findall ks r')" by simp
    then show ?thesis
    proof
      assume "g = g'"
      then have "c # cs = [] @ (c # cs) \<and> match_at ks (c # cs) = Some (g, r')" using Some a by simp
      then show ?thesis by blast
    next
      assume "g \<in> set (findall ks r')"
      with 2(2)[OF Some a[symmetric]] obtain u d r where ud: "r' = u @ d" "match_at ks d = Some (g, r)"
        by blast
      have "\<exists>pre. c # cs = pre @ r'"
        using Some a match_at_suffix by blast
      then show ?thesis using ud by (metis append.assoc)
    qed
  qed
qed

lemma delete_subset_from: "set (findall delete_pattern s) \<subseteq> set (findall from_pattern s)"
  unfolding delete_pattern_def from_pattern_def
  using findall_elem delete_match_in_from by blast

section \<open>The resolver on texts made of clauses\<close>

lemma skip_chars:
  "k \<noteq> [] \<Longrightarrow> hd k \<notin> set x \<Longrightarrow> findall (k # ks) (x @ t) = findall (k # ks) t"
proof (induction x)
  case Nil
  then show ?case by simp
next
  case (Cons c x)
  then obtain a k' where k: "k = a # k'" and "a \<noteq> c" by (cases k) auto
  then have "match_at (k # ks) (c # x @ t) = None" by simp
  then show ?case using Cons by simp
qed

lemma contains_lit: "lit k x \<noteq> None \<Longrightarrow> contains k x"
  by (cases x; cases k) auto

lemma lit_append_None:
  assumes "lit k (x @ t) \<noteq> None" and "lit k x = None"
  shows "\<exists>us r. us \<noteq> [] \<and> k = x @ us \<and> t = us @ r"
proof -
  from assms(1) obtain r where "x @ t = k @ r" by (auto simp: lit_Some)
  then obtain us where "(x = k @ us \<and> us @ t = r) \<or> (x @ us = k \<and> t = us @ r)"
    unfolding append_eq_append_conv2 by blast
  moreover have "x \<noteq> k @ us" for us
    using assms(2) lit_Some [of k "k @ us" us] by auto
  ultimately obtain us where u: "x @ us = k" "t = us @ r" by blast
  with assms(2) lit_Some [of k k "[]"] have "us \<noteq> []" by auto
  with u show ?thesis by blast
qed

lemma skip_inert:
  assumes "list_all is_word k" and "\<not> contains k x" and "t = [] \<or> \<not> is_word (hd t)"
  shows "findall (k # ks) (x @ t) = findall (k # ks) t"
  using assms(2)
proof (induction x)
  case Nil
  then show ?case by simp
next
  case (Cons c x)
  then have n: "lit k (c # x) = None" and nc: "\<not> contains k x" by auto
  have "lit k ((c # x) @ t) = None"
  proof (rule ccontr)
    assume "lit k ((c # x) @ t) \<noteq> None"
    from lit_append_None [OF this n] obtain us r where
      u: "us \<noteq> []" "k = (c # x) @ us" "t = us @ r" by blast
    then have "t \<noteq> []" "hd t = hd us" by auto
    moreover have "hd us \<in> set k" using u by auto
    ultimately show False using assms(1,3) by (auto simp: list_all_iff)
  qed
  then have "match_at (k # ks) (c # x @ t) = None" by simp
  then show ?case using Cons.IH [OF nc] by simp
qed

lemma spaces1_run:
  assumes "white w" and "t = [] \<or> \<not> is_space (hd t)"
  shows "spaces1 (w @ t) = Some t"
proof -
  from assms(1) obtain c w' where w: "w = c # w'" "is_space c" "list_all is_space w'"
    by (cases w) (auto simp: white_def)
  have "dropWhile is_space (w' @ t) = t"
    using w(3) assms(2) by (cases t) (auto simp: list_all_iff dropWhile_append)
  then show ?thesis using w by (simp add: spaces1_def)
qed

lemma ident_capture:
  assumes "is_identifier i" and "starts_clean f"
  shows "ident (i @ f) = Some (i, f)"
proof -
  let ?a = "takeWhile is_word i" and ?r = "dropWhile is_word i"
  have i: "ident i = Some (i, [])" using assms(1) by (simp add: is_identifier_def)
  have a: "?a \<noteq> []" using i by (auto simp: ident_def Let_def split: if_splits)
  have aw: "\<forall>c\<in>set ?a. is_word c" by (auto dest: set_takeWhileD)
  have f: "takeWhile is_word f = []" "dropWhile is_word f = f"
    using assms(2) by (cases f; simp add: starts_clean_def)+
  have fd: "f = [] \<or> hd f \<noteq> CHR ''.''"
    using assms(2) by (cases f) (simp_all add: starts_clean_def)
  show ?thesis
  proof (cases ?r)
    case Nil
    then have ia: "i = ?a" by (metis append_Nil2 takeWhile_dropWhile_id)
    then have iw: "\<forall>c\<in>set i. is_word c" using aw by simp
    have 1: "takeWhile is_word (i @ f) = i" using iw f by (simp add: takeWhile_append2)
    have 2: "dropWhile is_word (i @ f) = f" using iw f by (simp add: dropWhile_append2)
    have "i \<noteq> []" using a ia by simp
    then have "ident (i @ f) =
        (case f of [] \<Rightarrow> Some (i, f)
         | d # r' \<Rightarrow> if d = CHR ''.'' \<and> takeWhile is_word r' \<noteq> []
                     then Some (i @ d # takeWhile is_word r', dropWhile is_word r')
                     else Some (i, f))"
      unfolding ident_def [of "i @ f"] 1 2 Let_def by simp
    then show ?thesis using fd by (cases f) auto
  next
    case (Cons d r')
    have nd: "\<not> is_word d"
      using Cons by (metis hd_dropWhile list.sel(1) list.distinct(1))
    from i a Cons have d: "d = CHR ''.''" and r'n: "takeWhile is_word r' \<noteq> []"
      and r'd: "dropWhile is_word r' = []"
      and ieq: "i = ?a @ d # takeWhile is_word r'"
      by (auto simp: ident_def [of i] Let_def split: if_splits)
    from r'd have r'w: "\<forall>c\<in>set r'. is_word c" by (simp add: dropWhile_eq_Nil_conv)
    then have tr: "takeWhile is_word r' = r'" by (simp add: takeWhile_eq_all_conv)
    define a where "a = takeWhile is_word i"
    have ia: "i @ f = a @ (d # r' @ f)" using ieq tr by (simp add: a_def)
    have aw': "\<forall>c\<in>set a. is_word c" using aw by (simp add: a_def)
    have 1: "takeWhile is_word (i @ f) = ?a"
      unfolding ia using aw' nd by (simp add: takeWhile_append2 a_def)
    have 2: "dropWhile is_word (i @ f) = d # r' @ f"
      unfolding ia using aw' nd by (simp add: dropWhile_append2)
    have 3: "takeWhile is_word (r' @ f) = r'" using r'w f by (simp add: takeWhile_append2)
    have 4: "dropWhile is_word (r' @ f) = f" using r'w f by (simp add: dropWhile_append2)
    show ?thesis using a d r'n ieq tr
      by (simp add: ident_def [of "i @ f"] 1 2 3 4 Let_def)
  qed
qed

lemma findall_match:
  "match_at ks s = Some (g, r) \<Longrightarrow> s \<noteq> [] \<Longrightarrow> findall ks s = g # findall ks r"
  by (cases s) simp_all

lemma lit_same: "lit k (k @ r) = Some r"
  by (simp add: lit_Some)

lemma white_hd: "white w \<Longrightarrow> w @ x \<noteq> [] \<and> is_space (hd (w @ x))"
  by (cases w) (auto simp: white_def)

lemma skip_white:
  assumes "k \<noteq> []" and "list_all is_word k" and "white w"
  shows "findall (k # ks) (w @ x) = findall (k # ks) x"
proof (rule skip_chars [OF assms(1)])
  have "is_word (hd k)" using assms(1,2) by (cases k) auto
  then show "hd k \<notin> set w"
    using assms(3) by (auto simp: white_def list_all_iff dest: is_word_not_space)
qed

lemma skip_word:
  assumes "k \<noteq> []" and "list_all is_word k" and "\<not> contains k W" and "white w"
  shows "findall (k # ks) (W @ w @ x) = findall (k # ks) x"
proof -
  have "\<not> is_word (hd (w @ x))" using white_hd [OF assms(4)] is_word_not_space by blast
  then have "findall (k # ks) (W @ w @ x) = findall (k # ks) (w @ x)"
    by (intro skip_inert assms) simp
  then show ?thesis using skip_white [OF assms(1,2,4)] by simp
qed

lemma identifier_hd: "is_identifier i \<Longrightarrow> i \<noteq> [] \<and> is_word (hd i)"
proof -
  assume "is_identifier i"
  then have "takeWhile is_word i \<noteq> []"
    by (auto simp: is_identifier_def ident_def Let_def split: if_splits)
  then show ?thesis by (cases i) (auto split: if_splits)
qed

lemma keyword_free_D: "keyword_free x \<Longrightarrow> k \<in> set key_words \<Longrightarrow> \<not> contains k x"
  by (simp add: keyword_free_def list_all_iff)

lemma starts_clean_D: "starts_clean r \<Longrightarrow> r = [] \<or> \<not> is_word (hd r)"
  by (cases r) (simp_all add: starts_clean_def)

lemma key_word_facts: "k \<in> set key_words \<Longrightarrow> k \<noteq> [] \<and> list_all is_word k"
  by (auto simp: key_words_def is_word_def)

lemma skip_ident:
  assumes "k \<in> set key_words" and "tail_ok i r"
  shows "findall (k # ks) (i @ r) = findall (k # ks) r"
  using assms key_word_facts [OF assms(1)]
  by (intro skip_inert) (auto simp: tail_ok_def dest: keyword_free_D starts_clean_D)

lemma match_ident:
  assumes "white w" and "tail_ok i r"
  shows "match_at [k] (k @ w @ i @ r) = Some (i, r)"
proof -
  have "\<not> is_space (hd (i @ r))" "i @ r \<noteq> []"
    using identifier_hd assms(2) by (auto simp: tail_ok_def dest: is_word_not_space)
  then have "spaces1 (w @ i @ r) = Some (i @ r)" by (intro spaces1_run assms) simp
  moreover have "ident (i @ r) = Some (i, r)"
    using assms(2) by (simp add: tail_ok_def ident_capture)
  ultimately show ?thesis by (simp add: lit_same)
qed

lemma one_word_hit:
  assumes "k \<noteq> []" and "white w" and "tail_ok i r"
  shows "findall [k] (k @ w @ i @ r) = i # findall [k] r"
  using match_ident [OF assms(2,3)] assms(1) by (intro findall_match) auto

lemma one_word_skip:
  assumes "k \<in> set key_words" and "\<not> contains k W" and "white w" and "tail_ok i r"
  shows "findall (k # ks) (W @ w @ i @ r) = findall (k # ks) r"
  using skip_word [where k = k and W = W and w = w and x = "i @ r" and ks = ks] skip_ident [OF assms(1,4), of ks] assms
    key_word_facts [OF assms(1)]
  by simp

lemma two_word_hit:
  assumes "k1 \<noteq> []" and "k2 \<noteq> []" and "list_all is_word k2" and "white v" and "white w"
    and "tail_ok i r"
  shows "findall [k1, k2] (k1 @ v @ k2 @ w @ i @ r) = i # findall [k1, k2] r"
proof -
  have "\<not> is_space (hd (k2 @ w @ i @ r))"
    using assms(2,3) by (cases k2) (auto dest: is_word_not_space)
  then have "spaces1 (v @ k2 @ w @ i @ r) = Some (k2 @ w @ i @ r)"
    using assms(2) by (intro spaces1_run assms) simp
  then have "match_at [k1, k2] (k1 @ v @ k2 @ w @ i @ r) = Some (i, r)"
    using match_ident [OF assms(5,6), of k2] by (simp add: lit_same)
  then show ?thesis using assms(1) by (intro findall_match) auto
qed

lemma two_word_second:
  assumes "k \<in> set key_words" and "\<not> contains k W" and "white v" and "white w" and "tail_ok i r"
  shows "findall [k] (W @ v @ k @ w @ i @ r) = i # findall [k] r"
  using skip_word [where k = k and W = W and w = v and x = "k @ w @ i @ r" and ks = "[]"]
    one_word_hit [where k = k and w = w and i = i and r = r] assms
    key_word_facts [OF assms(1)]
  by simp

lemma two_word_skip:
  assumes "k \<in> set key_words" and "\<not> contains k W1" and "\<not> contains k W2"
    and "white v" and "white w" and "tail_ok i r"
  shows "findall (k # ks) (W1 @ v @ W2 @ w @ i @ r) = findall (k # ks) r"
  using skip_word [where k = k and W = W1 and w = v and x = "W2 @ w @ i @ r" and ks = ks]
    one_word_skip [OF assms(1,3,5,6), of ks] assms
    key_word_facts [OF assms(1)]
  by simp

lemma clause_scan:
  assumes "ks \<in> set patterns" and "wf_kw kw" and "white w" and "tail_ok i r"
  shows "findall ks (kw_text kw @ w @ i @ r) = (if captures ks kw then [i] else []) @ findall ks r"
proof -
  note a = assms(3,4)
  show ?thesis
  proof (cases kw)
    case From
    from \<open>ks \<in> set patterns\<close> consider (f) "ks = [''FROM'']" | (j) "ks = [''JOIN'']"
      | (n) "ks = [''INSERT'', ''INTO'']" | (u) "ks = [''UPDATE'']" | (d) "ks = [''DELETE'', ''FROM'']"
      by (auto simp: patterns_def from_pattern_def join_pattern_def insert_pattern_def update_pattern_def delete_pattern_def)
    then show ?thesis
    proof cases
      case f
      have "findall [''FROM''] (''FROM'' @ w @ i @ r) = i # findall [''FROM''] r"
        by (rule one_word_hit) (simp_all add: a)
      then show ?thesis by (simp add: From f patterns_def from_pattern_def join_pattern_def insert_pattern_def update_pattern_def delete_pattern_def)
    next
      case j
      have "findall (''JOIN'' # []) (''FROM'' @ w @ i @ r) = findall (''JOIN'' # []) r"
        by (rule one_word_skip) (simp_all add: a key_words_def)
      then show ?thesis by (simp add: From j patterns_def from_pattern_def join_pattern_def insert_pattern_def update_pattern_def delete_pattern_def)
    next
      case n
      have "findall (''INSERT'' # [''INTO'']) (''FROM'' @ w @ i @ r) = findall (''INSERT'' # [''INTO'']) r"
        by (rule one_word_skip) (simp_all add: a key_words_def)
      then show ?thesis by (simp add: From n patterns_def from_pattern_def join_pattern_def insert_pattern_def update_pattern_def delete_pattern_def)
    next
      case u
      have "findall (''UPDATE'' # []) (''FROM'' @ w @ i @ r) = findall (''UPDATE'' # []) r"
        by (rule one_word_skip) (simp_all add: a key_words_def)
      then show ?thesis by (simp add: From u patterns_def from_pattern_def join_pattern_def insert_pattern_def update_pattern_def delete_pattern_def)
    next
      case d
      have "findall (''DELETE'' # [''FROM'']) (''FROM'' @ w @ i @ r) = findall (''DELETE'' # [''FROM'']) r"
        by (rule one_word_skip) (simp_all add: a key_words_def)
      then show ?thesis by (simp add: From d patterns_def from_pattern_def join_pattern_def insert_pattern_def update_pattern_def delete_pattern_def)
    qed
  next
    case Join
    from \<open>ks \<in> set patterns\<close> consider (f) "ks = [''FROM'']" | (j) "ks = [''JOIN'']"
      | (n) "ks = [''INSERT'', ''INTO'']" | (u) "ks = [''UPDATE'']" | (d) "ks = [''DELETE'', ''FROM'']"
      by (auto simp: patterns_def from_pattern_def join_pattern_def insert_pattern_def update_pattern_def delete_pattern_def)
    then show ?thesis
    proof cases
      case f
      have "findall (''FROM'' # []) (''JOIN'' @ w @ i @ r) = findall (''FROM'' # []) r"
        by (rule one_word_skip) (simp_all add: a key_words_def)
      then show ?thesis by (simp add: Join f patterns_def from_pattern_def join_pattern_def insert_pattern_def update_pattern_def delete_pattern_def)
    next
      case j
      have "findall [''JOIN''] (''JOIN'' @ w @ i @ r) = i # findall [''JOIN''] r"
        by (rule one_word_hit) (simp_all add: a)
      then show ?thesis by (simp add: Join j patterns_def from_pattern_def join_pattern_def insert_pattern_def update_pattern_def delete_pattern_def)
    next
      case n
      have "findall (''INSERT'' # [''INTO'']) (''JOIN'' @ w @ i @ r) = findall (''INSERT'' # [''INTO'']) r"
        by (rule one_word_skip) (simp_all add: a key_words_def)
      then show ?thesis by (simp add: Join n patterns_def from_pattern_def join_pattern_def insert_pattern_def update_pattern_def delete_pattern_def)
    next
      case u
      have "findall (''UPDATE'' # []) (''JOIN'' @ w @ i @ r) = findall (''UPDATE'' # []) r"
        by (rule one_word_skip) (simp_all add: a key_words_def)
      then show ?thesis by (simp add: Join u patterns_def from_pattern_def join_pattern_def insert_pattern_def update_pattern_def delete_pattern_def)
    next
      case d
      have "findall (''DELETE'' # [''FROM'']) (''JOIN'' @ w @ i @ r) = findall (''DELETE'' # [''FROM'']) r"
        by (rule one_word_skip) (simp_all add: a key_words_def)
      then show ?thesis by (simp add: Join d patterns_def from_pattern_def join_pattern_def insert_pattern_def update_pattern_def delete_pattern_def)
    qed
  next
    case Update
    from \<open>ks \<in> set patterns\<close> consider (f) "ks = [''FROM'']" | (j) "ks = [''JOIN'']"
      | (n) "ks = [''INSERT'', ''INTO'']" | (u) "ks = [''UPDATE'']" | (d) "ks = [''DELETE'', ''FROM'']"
      by (auto simp: patterns_def from_pattern_def join_pattern_def insert_pattern_def update_pattern_def delete_pattern_def)
    then show ?thesis
    proof cases
      case f
      have "findall (''FROM'' # []) (''UPDATE'' @ w @ i @ r) = findall (''FROM'' # []) r"
        by (rule one_word_skip) (simp_all add: a key_words_def)
      then show ?thesis by (simp add: Update f patterns_def from_pattern_def join_pattern_def insert_pattern_def update_pattern_def delete_pattern_def)
    next
      case j
      have "findall (''JOIN'' # []) (''UPDATE'' @ w @ i @ r) = findall (''JOIN'' # []) r"
        by (rule one_word_skip) (simp_all add: a key_words_def)
      then show ?thesis by (simp add: Update j patterns_def from_pattern_def join_pattern_def insert_pattern_def update_pattern_def delete_pattern_def)
    next
      case n
      have "findall (''INSERT'' # [''INTO'']) (''UPDATE'' @ w @ i @ r) = findall (''INSERT'' # [''INTO'']) r"
        by (rule one_word_skip) (simp_all add: a key_words_def)
      then show ?thesis by (simp add: Update n patterns_def from_pattern_def join_pattern_def insert_pattern_def update_pattern_def delete_pattern_def)
    next
      case u
      have "findall [''UPDATE''] (''UPDATE'' @ w @ i @ r) = i # findall [''UPDATE''] r"
        by (rule one_word_hit) (simp_all add: a)
      then show ?thesis by (simp add: Update u patterns_def from_pattern_def join_pattern_def insert_pattern_def update_pattern_def delete_pattern_def)
    next
      case d
      have "findall (''DELETE'' # [''FROM'']) (''UPDATE'' @ w @ i @ r) = findall (''DELETE'' # [''FROM'']) r"
        by (rule one_word_skip) (simp_all add: a key_words_def)
      then show ?thesis by (simp add: Update d patterns_def from_pattern_def join_pattern_def insert_pattern_def update_pattern_def delete_pattern_def)
    qed
  next
    case (InsertInto v)
    then have v: "white v" using assms(2) by simp
    from \<open>ks \<in> set patterns\<close> consider (f) "ks = [''FROM'']" | (j) "ks = [''JOIN'']"
      | (n) "ks = [''INSERT'', ''INTO'']" | (u) "ks = [''UPDATE'']" | (d) "ks = [''DELETE'', ''FROM'']"
      by (auto simp: patterns_def from_pattern_def join_pattern_def insert_pattern_def update_pattern_def delete_pattern_def)
    then show ?thesis
    proof cases
      case f
      have "findall (''FROM'' # []) (''INSERT'' @ v @ ''INTO'' @ w @ i @ r) = findall (''FROM'' # []) r"
        by (rule two_word_skip) (simp_all add: a v key_words_def)
      then show ?thesis by (simp add: InsertInto f patterns_def from_pattern_def join_pattern_def insert_pattern_def update_pattern_def delete_pattern_def)
    next
      case j
      have "findall (''JOIN'' # []) (''INSERT'' @ v @ ''INTO'' @ w @ i @ r) = findall (''JOIN'' # []) r"
        by (rule two_word_skip) (simp_all add: a v key_words_def)
      then show ?thesis by (simp add: InsertInto j patterns_def from_pattern_def join_pattern_def insert_pattern_def update_pattern_def delete_pattern_def)
    next
      case n
      have "findall [''INSERT'', ''INTO''] (''INSERT'' @ v @ ''INTO'' @ w @ i @ r) = i # findall [''INSERT'', ''INTO''] r"
        by (rule two_word_hit) (simp_all add: a v is_word_def)
      then show ?thesis by (simp add: InsertInto n patterns_def from_pattern_def join_pattern_def insert_pattern_def update_pattern_def delete_pattern_def)
    next
      case u
      have "findall (''UPDATE'' # []) (''INSERT'' @ v @ ''INTO'' @ w @ i @ r) = findall (''UPDATE'' # []) r"
        by (rule two_word_skip) (simp_all add: a v key_words_def)
      then show ?thesis by (simp add: InsertInto u patterns_def from_pattern_def join_pattern_def insert_pattern_def update_pattern_def delete_pattern_def)
    next
      case d
      have "findall (''DELETE'' # [''FROM'']) (''INSERT'' @ v @ ''INTO'' @ w @ i @ r) = findall (''DELETE'' # [''FROM'']) r"
        by (rule two_word_skip) (simp_all add: a v key_words_def)
      then show ?thesis by (simp add: InsertInto d patterns_def from_pattern_def join_pattern_def insert_pattern_def update_pattern_def delete_pattern_def)
    qed
  next
    case (DeleteFrom v)
    then have v: "white v" using assms(2) by simp
    from \<open>ks \<in> set patterns\<close> consider (f) "ks = [''FROM'']" | (j) "ks = [''JOIN'']"
      | (n) "ks = [''INSERT'', ''INTO'']" | (u) "ks = [''UPDATE'']" | (d) "ks = [''DELETE'', ''FROM'']"
      by (auto simp: patterns_def from_pattern_def join_pattern_def insert_pattern_def update_pattern_def delete_pattern_def)
    then show ?thesis
    proof cases
      case f
      have "findall [''FROM''] (''DELETE'' @ v @ ''FROM'' @ w @ i @ r) = i # findall [''FROM''] r"
        by (rule two_word_second) (simp_all add: a v key_words_def)
      then show ?thesis by (simp add: DeleteFrom f patterns_def from_pattern_def join_pattern_def insert_pattern_def update_pattern_def delete_pattern_def)
    next
      case j
      have "findall (''JOIN'' # []) (''DELETE'' @ v @ ''FROM'' @ w @ i @ r) = findall (''JOIN'' # []) r"
        by (rule two_word_skip) (simp_all add: a v key_words_def)
      then show ?thesis by (simp add: DeleteFrom j patterns_def from_pattern_def join_pattern_def insert_pattern_def update_pattern_def delete_pattern_def)
    next
      case n
      have "findall (''INSERT'' # [''INTO'']) (''DELETE'' @ v @ ''FROM'' @ w @ i @ r) = findall (''INSERT'' # [''INTO'']) r"
        by (rule two_word_skip) (simp_all add: a v key_words_def)
      then show ?thesis by (simp add: DeleteFrom n patterns_def from_pattern_def join_pattern_def insert_pattern_def update_pattern_def delete_pattern_def)
    next
      case u
      have "findall (''UPDATE'' # []) (''DELETE'' @ v @ ''FROM'' @ w @ i @ r) = findall (''UPDATE'' # []) r"
        by (rule two_word_skip) (simp_all add: a v key_words_def)
      then show ?thesis by (simp add: DeleteFrom u patterns_def from_pattern_def join_pattern_def insert_pattern_def update_pattern_def delete_pattern_def)
    next
      case d
      have "findall [''DELETE'', ''FROM''] (''DELETE'' @ v @ ''FROM'' @ w @ i @ r) = i # findall [''DELETE'', ''FROM''] r"
        by (rule two_word_hit) (simp_all add: a v is_word_def)
      then show ?thesis by (simp add: DeleteFrom d patterns_def from_pattern_def join_pattern_def insert_pattern_def update_pattern_def delete_pattern_def)
    qed
  qed
qed

lemma contains_Nil: "contains [] y"
  by (cases y) simp_all

lemma contains_append: "contains k x \<Longrightarrow> contains k (x @ y)"
proof (induction x)
  case Nil
  then show ?case by (simp add: contains_Nil)
next
  case (Cons c x)
  from Cons.prems have "lit k (c # x) \<noteq> None \<or> contains k x" by simp
  then show ?case
  proof
    assume "lit k (c # x) \<noteq> None"
    then obtain r where "c # x = k @ r" by (auto simp: lit_Some)
    then have "(c # x) @ y = k @ (r @ y)" by simp
    then have "lit k ((c # x) @ y) = Some (r @ y)" by (simp only: lit_Some)
    then show ?thesis by simp
  next
    assume "contains k x"
    then show ?thesis using Cons.IH by simp
  qed
qed

lemma rest_skip:
  assumes "k \<in> set key_words" and "keyword_free f" and "ends_clean f"
  shows "findall (k # ks) (f @ t) = findall (k # ks) t"
proof (cases "f = []")
  case True
  then show ?thesis by simp
next
  case False
  then have f: "f = butlast f @ [last f]" by simp
  have l: "\<not> is_word (last f)"
    using assms(3) False by (cases f rule: rev_cases) (simp_all add: ends_clean_def)
  note kf = key_word_facts [OF assms(1)]
  have "\<not> contains k f" using assms(1,2) by (rule keyword_free_D [rotated])
  then have nb: "\<not> contains k (butlast f)" using contains_append [of k "butlast f" "[last f]"] f
    by auto
  have "findall (k # ks) (butlast f @ (last f # t)) = findall (k # ks) (last f # t)"
    using kf nb l by (intro skip_inert) simp_all
  moreover have "findall (k # ks) ([last f] @ t) = findall (k # ks) t"
  proof (rule skip_chars)
    show "k \<noteq> []" using kf by simp
    have "is_word (hd k)" using kf by (cases k) auto
    then show "hd k \<notin> set [last f]" using l by auto
  qed
  ultimately have "findall (k # ks) ((butlast f @ [last f]) @ t) = findall (k # ks) t" by simp
  then show ?thesis using f by simp
qed

lemma rest_end:
  assumes "k \<in> set key_words" and "keyword_free f"
  shows "findall (k # ks) f = []"
proof -
  have "findall (k # ks) (f @ []) = findall (k # ks) []"
    using assms key_word_facts [OF assms(1)]
    by (intro skip_inert) (auto dest: keyword_free_D)
  then show ?thesis by simp
qed

lemma pattern_first: "ks \<in> set patterns \<Longrightarrow> \<exists>k ks'. ks = k # ks' \<and> k \<in> set key_words"
  by (auto simp: patterns_def from_pattern_def join_pattern_def insert_pattern_def
      update_pattern_def delete_pattern_def key_words_def)

lemma starts_clean_append: "starts_clean r \<Longrightarrow> r \<noteq> [] \<Longrightarrow> starts_clean (r @ t)"
  by (cases r) (simp_all add: starts_clean_def)

lemma findall_clauses:
  assumes "ks \<in> set patterns"
  shows "wf_clauses cs \<Longrightarrow> findall ks (concat (map clause_text cs)) = concat (map (hits ks) cs)"
proof (induction cs rule: wf_clauses.induct)
  case 1
  then show ?case by simp
next
  case (2 c)
  then have w: "wf_clause c" by simp
  from pattern_first [OF assms] obtain k ks' where k: "ks = k # ks'" "k \<in> set key_words" by blast
  have "findall ks (kw_text (c_kw c) @ c_space c @ c_ident c @ c_rest c)
          = hits ks c @ findall ks (c_rest c)"
    unfolding hits_def using assms w by (intro clause_scan) (simp_all add: wf_clause_def tail_ok_def)
  moreover have "findall ks (c_rest c) = []"
    unfolding k(1) using k(2) w by (intro rest_end) (simp_all add: wf_clause_def)
  ultimately show ?case by (simp add: clause_text_def)
next
  case (3 c d cs)
  then have w: "wf_clause c" and n: "c_rest c \<noteq> []" and e: "ends_clean (c_rest c)"
    and r: "wf_clauses (d # cs)" by simp_all
  let ?t = "concat (map clause_text (d # cs))"
  from pattern_first [OF assms] obtain k ks' where k: "ks = k # ks'" "k \<in> set key_words" by blast
  have "findall ks (kw_text (c_kw c) @ c_space c @ c_ident c @ c_rest c @ ?t)
          = hits ks c @ findall ks (c_rest c @ ?t)"
    unfolding hits_def using assms w n
    by (intro clause_scan) (simp_all add: wf_clause_def tail_ok_def starts_clean_append)
  moreover have "findall ks (c_rest c @ ?t) = findall ks ?t"
    unfolding k(1) using k(2) w e by (intro rest_skip) (simp_all add: wf_clause_def)
  ultimately have "findall ks (clause_text c @ ?t) = hits ks c @ findall ks ?t"
    by (simp add: clause_text_def)
  then show ?case using "3.IH" [OF r] by simp
qed

lemma findall_text:
  assumes "ks \<in> set patterns" and "wf_text f0 cs"
  shows "findall ks (clauses_text f0 cs) = concat (map (hits ks) cs)"
proof -
  from pattern_first [OF assms(1)] obtain k ks' where k: "ks = k # ks'" "k \<in> set key_words" by blast
  have "findall ks (f0 @ concat (map clause_text cs)) = findall ks (concat (map clause_text cs))"
    unfolding k(1) using k(2) assms(2) by (intro rest_skip) (simp_all add: wf_text_def)
  then show ?thesis using findall_clauses [OF assms(1)] assms(2)
    by (simp add: clauses_text_def wf_text_def)
qed

lemma set_hits: "set (concat (map (hits ks) cs)) = c_ident ` {c \<in> set cs. captures ks (c_kw c)}"
  by (auto simp: hits_def split: if_splits)

lemma source_captures:
  "is_source kw \<longleftrightarrow> captures from_pattern kw \<or> captures join_pattern kw"
  by (cases kw) (simp_all add: from_pattern_def join_pattern_def update_pattern_def
      insert_pattern_def delete_pattern_def)

lemma target_captures:
  "is_target kw \<longleftrightarrow>
     captures insert_pattern kw \<or> captures update_pattern kw \<or> captures delete_pattern kw"
  by (cases kw) (simp_all add: from_pattern_def join_pattern_def update_pattern_def
      insert_pattern_def delete_pattern_def)

lemma image_filter: "f ` {c \<in> set xs. P c} = set (map f (filter P xs))"
  by auto

lemma join_example_sources:
  "c_ident ` {c \<in> set join_example. is_source (c_kw c)} = {''CUSTOMERS'', ''ORDERS''}"
  unfolding image_filter by (simp add: join_example_def)

lemma join_example_targets: "c_ident ` {c \<in> set join_example. is_target (c_kw c)} = {}"
  unfolding image_filter by (simp add: join_example_def)

lemma all_kinds_example_sources:
  "c_ident ` {c \<in> set all_kinds_example. is_source (c_kw c)} = {''T1'', ''T4'', ''T5''}"
  unfolding image_filter by (simp add: all_kinds_example_def)

lemma all_kinds_example_targets:
  "c_ident ` {c \<in> set all_kinds_example. is_target (c_kw c)} = {''T1'', ''T2'', ''DBO.T3''}"
  unfolding image_filter by (simp add: all_kinds_example_def)

section \<open>Claims about the resolver\<close>

text \<open>
  C10. For every query text, every identifier that the \<open>DELETE FROM\<close> pattern puts into the
  target tables is also among the returned source tables, since the \<open>FROM\<close> pattern
  matches the same occurrence: a table named in a \<open>DELETE FROM\<close> statement is reported both
  as a source and as a target.
\<close>

theorem delete_from_target_is_source:
  "\<forall>g\<in>set (findall delete_pattern (upper sql)).
     g \<in> set (fst (parse_sql_tables sql)) \<and> g \<in> set (snd (parse_sql_tables sql))"
  using delete_subset_from [of "upper sql"]
  by (auto simp: parse_sql_tables_def Let_def)

theorem delete_from_target_is_source_witness:
  "''T'' \<in> set (findall delete_pattern (upper ''delete from T''))
   \<and> ''T'' \<in> set (fst (parse_sql_tables ''delete from T''))
   \<and> ''T'' \<in> set (snd (parse_sql_tables ''delete from T''))"
proof -
  have "''T'' \<in> set (findall delete_pattern (upper ''delete from T''))"
    by code_simp
  with delete_from_target_is_source [of "''delete from T''"] show ?thesis
    by blast
qed

text \<open>
  C4. For a query text whose upper-cased form is made of clauses and is well formed, the
  resolver returns exactly the identifiers of the \<open>FROM\<close>, \<open>JOIN\<close> and \<open>DELETE FROM\<close>
  clauses as source tables and exactly those of the \<open>INSERT INTO\<close>, \<open>UPDATE\<close> and
  \<open>DELETE FROM\<close> clauses as target tables, whatever the order of the clauses (the sets
  on the right depend on the set of clauses only); and the two example queries give the
  sets stated.
\<close>

theorem resolver_exact_on_clauses:
  assumes "upper sql = clauses_text f0 cs" and "wf_text f0 cs"
  shows "set (fst (parse_sql_tables sql)) = c_ident ` {c \<in> set cs. is_source (c_kw c)}
       \<and> set (snd (parse_sql_tables sql)) = c_ident ` {c \<in> set cs. is_target (c_kw c)}
       \<and> set (fst (parse_sql_tables ''SELECT * FROM Customers c JOIN Orders o ON c.id=o.cid''))
           = {''CUSTOMERS'', ''ORDERS''}
       \<and> set (snd (parse_sql_tables ''SELECT * FROM Customers c JOIN Orders o ON c.id=o.cid''))
           = {}
       \<and> set (fst (parse_sql_tables ''INSERT INTO DimCustomer SELECT * FROM StgCustomer''))
           = {''STGCUSTOMER''}
       \<and> set (snd (parse_sql_tables ''INSERT INTO DimCustomer SELECT * FROM StgCustomer''))
           = {''DIMCUSTOMER''}"
proof -
  have p: "from_pattern \<in> set patterns" "join_pattern \<in> set patterns"
    "insert_pattern \<in> set patterns" "update_pattern \<in> set patterns"
    "delete_pattern \<in> set patterns" by (simp_all add: patterns_def)
  have f: "set (findall ks (upper sql)) = c_ident ` {c \<in> set cs. captures ks (c_kw c)}"
    if "ks \<in> set patterns" for ks
    unfolding assms(1) findall_text [OF that assms(2)] by (rule set_hits)
  have "set (fst (parse_sql_tables sql))
      = set (findall from_pattern (upper sql)) \<union> set (findall join_pattern (upper sql))"
    by (simp add: parse_sql_tables_def Let_def)
  also have "\<dots> = c_ident ` {c \<in> set cs. captures from_pattern (c_kw c)}
        \<union> c_ident ` {c \<in> set cs. captures join_pattern (c_kw c)}"
    by (simp only: f [OF p(1)] f [OF p(2)])
  also have "\<dots> = c_ident ` {c \<in> set cs. is_source (c_kw c)}"
    by (auto simp: source_captures)
  finally have 1: "set (fst (parse_sql_tables sql))
      = c_ident ` {c \<in> set cs. is_source (c_kw c)}" .
  have "set (snd (parse_sql_tables sql))
      = set (findall insert_pattern (upper sql)) \<union> set (findall update_pattern (upper sql))
        \<union> set (findall delete_pattern (upper sql))"
    by (simp add: parse_sql_tables_def Let_def Un_assoc)
  also have "\<dots> = c_ident ` {c \<in> set cs. captures insert_pattern (c_kw c)}
        \<union> c_ident ` {c \<in> set cs. captures update_pattern (c_kw c)}
        \<union> c_ident ` {c \<in> set cs. captures delete_pattern (c_kw c)}"
    by (simp only: f [OF p(3)] f [OF p(4)] f [OF p(5)])
  also have "\<dots> = c_ident ` {c \<in> set cs. is_target (c_kw c)}"
    by (auto simp: target_captures)
  finally have 2: "set (snd (parse_sql_tables sql))
      = c_ident ` {c \<in> set cs. is_target (c_kw c)}" .
  have e1: "parse_sql_tables ''SELECT * FROM Customers c JOIN Orders o ON c.id=o.cid''
            = ([''CUSTOMERS'', ''ORDERS''], [])" by code_simp
  have e2: "parse_sql_tables ''INSERT INTO DimCustomer SELECT * FROM StgCustomer''
            = ([''STGCUSTOMER''], [''DIMCUSTOMER''])" by code_simp
  have c1: "set (fst (parse_sql_tables ''SELECT * FROM Customers c JOIN Orders o ON c.id=o.cid''))
       = {''CUSTOMERS'', ''ORDERS''}" unfolding e1 by simp
  have c2: "set (snd (parse_sql_tables ''SELECT * FROM Customers c JOIN Orders o ON c.id=o.cid'')) = {}"
    unfolding e1 by simp
  have c3: "set (fst (parse_sql_tables ''INSERT INTO DimCustomer SELECT * FROM StgCustomer''))
       = {''STGCUSTOMER''}" unfolding e2 by simp
  have c4: "set (snd (parse_sql_tables ''INSERT INTO DimCustomer SELECT * FROM StgCustomer''))
       = {''DIMCUSTOMER''}" unfolding e2 by simp
  show ?thesis
    by (intro conjI) (rule 1, rule 2, rule c1, rule c2, rule c3, rule c4)
qed

text \<open>
  Two such texts: the first example of the claim, and a text with a clause of each kind,
  a qualified identifier, and a line break after a keyword.
\<close>

theorem resolver_exact_on_clauses_witness:
  "upper ''SELECT * FROM Customers c JOIN Orders o ON c.id=o.cid''
     = clauses_text ''SELECT * '' join_example
   \<and> wf_text ''SELECT * '' join_example
   \<and> set (fst (parse_sql_tables ''SELECT * FROM Customers c JOIN Orders o ON c.id=o.cid''))
       = {''CUSTOMERS'', ''ORDERS''}
   \<and> set (snd (parse_sql_tables ''SELECT * FROM Customers c JOIN Orders o ON c.id=o.cid'')) = {}
   \<and> upper all_kinds_query = clauses_text [] all_kinds_example
   \<and> wf_text [] all_kinds_example
   \<and> set (fst (parse_sql_tables all_kinds_query)) = {''T1'', ''T4'', ''T5''}
   \<and> set (snd (parse_sql_tables all_kinds_query)) = {''T1'', ''T2'', ''DBO.T3''}"
proof -
  let ?sql = "''SELECT * FROM Customers c JOIN Orders o ON c.id=o.cid''"
  have 1: "upper ?sql = clauses_text ''SELECT * '' join_example" by code_simp
  have 2: "wf_text ''SELECT * '' join_example" by code_simp
  note t = resolver_exact_on_clauses [OF 1 2]
  have 3: "set (fst (parse_sql_tables ?sql)) = {''CUSTOMERS'', ''ORDERS''}"
    using t [THEN conjunct1] by (simp only: join_example_sources)
  have 4: "set (snd (parse_sql_tables ?sql)) = {}"
    using t [THEN conjunct2, THEN conjunct1] by (simp only: join_example_targets)
  have 5: "upper all_kinds_query = clauses_text [] all_kinds_example" by code_simp
  have 6: "wf_text [] all_kinds_example" by code_simp
  note u = resolver_exact_on_clauses [OF 5 6]
  have 7: "set (fst (parse_sql_tables all_kinds_query)) = {''T1'', ''T4'', ''T5''}"
    using u [THEN conjunct1] by (simp only: all_kinds_example_sources)
  have 8: "set (snd (parse_sql_tables all_kinds_query)) = {''T1'', ''T2'', ''DBO.T3''}"
    using u [THEN conjunct2, THEN conjunct1] by (simp only: all_kinds_example_targets)
  show ?thesis
    by (intro conjI) (rule 1, rule 2, rule 3, rule 4, rule 5, rule 6, rule 7, rule 8)
qed

text \<open>
  Three texts where the sets are not the tables of the clauses: the table of a
  \<open>DELETE FROM\<close> is a source although the text has no \<open>FROM\<close> or \<open>JOIN\<close> clause; of the two
  tables of a comma-separated \<open>FROM\<close> clause only the first is returned; and a column
  name that ends in a keyword makes the next word a table.
\<close>

theorem resolver_counterexample:
  "parse_sql_tables ''DELETE FROM T'' = ([''T''], [''T''])
   \<and> parse_sql_tables ''SELECT * FROM A, B'' = ([''A''], [])
   \<and> parse_sql_tables ''SELECT LASTUPDATE FROM T'' = ([''T''], [''FROM''])"
  by code_simp

section \<open>Claims about the lineage query\<close>

lemma expand_length: "p \<in> set (expand R ty n used v) \<Longrightarrow> length p \<le> n"
proof (induction n arbitrary: p used v)
  case 0
  then show ?case by simp
next
  case (Suc n)
  from Suc.prems obtain i where
    "p = [i] \<or> (\<exists>q. p = i # q \<and> q \<in> set (expand R ty n (i # used) (r_end (R ! i))))"
    by (auto split: if_splits)
  then show ?case using Suc.IH by auto
qed

lemma match_paths_length:
  "p \<in> set (match_paths g ty P Q) \<Longrightarrow> length (path_nodes (rels g) p) \<le> max_hops + 1"
  by (auto simp: match_paths_def path_nodes_def dest: expand_length)

text \<open>
  C5. For every graph, also one with a cycle, the lineage query returns (it is a total
  function of the store) and no path it returns has more than \<open>max_hops + 1\<close> entities,
  where \<open>max_hops\<close> is the bound 10 written in the query. The witness is a store whose two
  assets feed into each other.
\<close>

theorem lineage_paths_bounded:
  "wf_graph g \<Longrightarrow>
   \<forall>path\<in>set (snd (get_lineage_for_asset g asset_name)). length path \<le> max_hops + 1"
  by (auto simp: get_lineage_for_asset_def Let_def dest!: match_paths_length)

theorem lineage_paths_bounded_witness:
  "wf_graph cyclic_graph
   \<and> [\<lparr>p_id = ''b'', p_name = ''B'', p_type = Asset\<rparr>,
       \<lparr>p_id = ''a'', p_name = ''A'', p_type = Asset\<rparr>,
       \<lparr>p_id = ''b'', p_name = ''B'', p_type = Asset\<rparr>]
      \<in> set (snd (get_lineage_for_asset cyclic_graph ''B''))
   \<and> length [\<lparr>p_id = ''b'', p_name = ''B'', p_type = Asset\<rparr>,
              \<lparr>p_id = ''a'', p_name = ''A'', p_type = Asset\<rparr>,
              \<lparr>p_id = ''b'', p_name = ''B'', p_type = Asset\<rparr>] \<le> max_hops + 1"
proof -
  have w: "wf_graph cyclic_graph" by code_simp
  have n: "[\<lparr>p_id = ''b'', p_name = ''B'', p_type = Asset\<rparr>,
            \<lparr>p_id = ''a'', p_name = ''A'', p_type = Asset\<rparr>,
            \<lparr>p_id = ''b'', p_name = ''B'', p_type = Asset\<rparr>]
           \<in> set (snd (get_lineage_for_asset cyclic_graph ''B''))" by code_simp
  from w n lineage_paths_bounded [OF w, of "''B''"] show ?thesis by blast
qed

text \<open>
  C3. The package \<open>load_customers\<close> has one data flow from \<open>StgCustomer\<close> to \<open>DimCustomer\<close>.
  On the graph built from its extraction the query for \<open>DimCustomer\<close> returns no path:
  a \<open>FEEDS_INTO\<close> relationship ends at a transformation and a \<open>PRODUCES\<close> relationship
  starts at one, so neither pattern, each over one relationship type between two assets,
  can match.
\<close>

theorem lineage_query_finds_no_path:
  "get_lineage_for_asset
     (create_lineage_graph (fst (snd (extract_from_dtsx init ''p'' (Document load_customers))))
        (snd (snd (extract_from_dtsx init ''p'' (Document load_customers)))))
     ''DimCustomer'' = (''DimCustomer'', [])"
  by code_simp

section \<open>Properties of extraction\<close>

lemma dict_update_Nil: "dict_update d [] = d"
  by (simp add: dict_update_def)

lemma main_step_not_well_formed: "main_step b (p, NotWellFormed) = b"
  by (simp add: main_step_def extract_from_dtsx_def extract_try_def parse_def dict_update_Nil)

lemma foldl_main_step_filter:
  "foldl main_step b (filter (\<lambda>d. snd d \<noteq> NotWellFormed) ps) = foldl main_step b ps"
proof (induction ps arbitrary: b)
  case Nil
  then show ?case by simp
next
  case (Cons d ps)
  obtain p f where d: "d = (p, f)" by (cases d)
  show ?case
  proof (cases "f = NotWellFormed")
    case True
    with d Cons show ?thesis by (simp add: main_step_not_well_formed)
  next
    case False
    with d Cons show ?thesis by simp
  qed
qed

lemma dict_get_set: "dict_get (dict_set d k v) k = Some v"
  by (simp add: dict_get_def dict_set_def update_conv')

lemma dict_keys_set:
  "dict_keys (dict_set d k v) = (if k \<in> set (dict_keys d) then dict_keys d else dict_keys d @ [k])"
  by (induction d) (auto simp: dict_keys_def dict_set_def)

lemma transformations_sql_assets:
  "transformations (foldl (sql_asset_step p ty) st ts) = transformations st"
  by (induction ts arbitrary: st) (auto simp: sql_asset_step_def Let_def)

section \<open>Claims about extraction\<close>

text \<open>
  C7. A file that is not well-formed makes the \<open>try\<close> block of \<open>extract_from_dtsx\<close> fail
  with a parse error, which the call answers itself: it returns two empty dictionaries
  and leaves the extractor as it was. The loop of \<open>main\<close> over a batch therefore ends in
  the same state as over the batch without its ill-formed files.
\<close>

theorem not_well_formed_is_skipped:
  "extract_try st p NotWellFormed = Inl ParseError
   \<and> extract_from_dtsx st p NotWellFormed = (st, ([], []))
   \<and> main_loop ps = main_loop (filter (\<lambda>d. snd d \<noteq> NotWellFormed) ps)"
  by (simp add: main_loop_def foldl_main_step_filter extract_from_dtsx_def extract_try_def parse_def)

text \<open>
  C1. The registry does not merge: each of the assignments \<open>self.assets[asset_id] = ...\<close>
  (for a query table, a source component and a destination component) stores the later
  candidate whatever the extractor held under the key, with all the fields of the later
  candidate, also the absent ones; at each of them an existing key keeps its position
  and a new one is appended, so there is one entity under the key.
\<close>

theorem later_candidate_replaces_earlier:
  "dict_get (assets (sql_asset_step p ty st table)) (p @ ''_'' @ table)
     = Some \<lparr>a_id = p @ ''_'' @ table, a_name = table, a_type = ty,
             a_schema = None, a_database = None, a_columns = None\<rparr>
   \<and> dict_get (assets (source_step p st c)) (p @ ''_'' @ attr_get_default c ''name'' ''Unknown Source'')
     = Some \<lparr>a_id = p @ ''_'' @ attr_get_default c ''name'' ''Unknown Source'',
             a_name = py_or (extract_table_name c) (attr_get_default c ''name'' ''Unknown Source''),
             a_type = ''source_table'', a_schema = Some ''dbo'', a_database = None, a_columns = None\<rparr>
   \<and> dict_get (assets (dest_step p st c)) (p @ ''_'' @ attr_get_default c ''name'' ''Unknown Destination'')
     = Some \<lparr>a_id = p @ ''_'' @ attr_get_default c ''name'' ''Unknown Destination'',
             a_name = py_or (extract_table_name c) (attr_get_default c ''name'' ''Unknown Destination''),
             a_type = ''target_table'', a_schema = Some ''dbo'', a_database = None, a_columns = None\<rparr>
   \<and> dict_keys (assets (sql_asset_step p ty st table))
     = (if p @ ''_'' @ table \<in> set (dict_keys (assets st)) then dict_keys (assets st)
        else dict_keys (assets st) @ [p @ ''_'' @ table])
   \<and> dict_keys (assets (source_step p st c))
     = (if p @ ''_'' @ attr_get_default c ''name'' ''Unknown Source'' \<in> set (dict_keys (assets st))
        then dict_keys (assets st)
        else dict_keys (assets st) @ [p @ ''_'' @ attr_get_default c ''name'' ''Unknown Source''])
   \<and> dict_keys (assets (dest_step p st c))
     = (if p @ ''_'' @ attr_get_default c ''name'' ''Unknown Destination'' \<in> set (dict_keys (assets st))
        then dict_keys (assets st)
        else dict_keys (assets st) @ [p @ ''_'' @ attr_get_default c ''name'' ''Unknown Destination''])"
  by (simp add: sql_asset_step_def source_step_def dest_step_def Let_def dict_get_set dict_keys_set)

text \<open>
  In \<open>customers_package\<close> the source component \<open>CUSTOMERS\<close> is registered with schema
  \<open>dbo\<close>; the query task then names the same table and the schema is absent afterwards.
\<close>

theorem later_candidate_counterexample:
  "map_option a_schema (dict_get (assets (extract_data_flows init customers_package ''p'')) ''p_CUSTOMERS'')
     = Some (Some ''dbo'')
   \<and> map_option a_schema
       (dict_get (assets (fst (extract_from_dtsx init ''p'' (Document customers_package)))) ''p_CUSTOMERS'')
     = Some None"
  by code_simp

text \<open>
  C2. A query task whose first property with \<open>SQL\<close> in its name (upper case, as the
  source tests it) carries a non-empty text \<open>sql\<close> gets one transformation, stored under
  the task's id, of type \<open>sql_task\<close>, with the first 500 characters of \<open>sql\<close> as its logic.
\<close>

theorem sql_task_transformation:
  assumes "find (\<lambda>prop. contains ''SQL'' (attr_get_default prop ''name'' ''''))
             (findall_tag task ''property'') = Some prop"
    and "xml_text prop = Some sql" and "sql \<noteq> []"
  shows "\<exists>t. transformations (sql_task_step p st task)
              = dict_set (transformations st)
                  (p @ ''_'' @ attr_get_default task (dts ''ObjectName'') ''Unknown SQL Task'') t
            \<and> t_id t = p @ ''_'' @ attr_get_default task (dts ''ObjectName'') ''Unknown SQL Task''
            \<and> t_name t = attr_get_default task (dts ''ObjectName'') ''Unknown SQL Task''
            \<and> t_type t = ''sql_task''
            \<and> t_transformation_logic t = Some (take 500 sql)"
proof -
  let ?name = "attr_get_default task (dts ''ObjectName'') ''Unknown SQL Task''"
  let ?t = "\<lparr>t_id = p @ ''_'' @ ?name, t_name = ?name, t_type = ''sql_task'',
             t_source_assets = None, t_target_assets = None,
             t_transformation_logic = Some (take 500 sql)\<rparr>"
  have "transformations (sql_task_step p st task)
          = dict_set (transformations st) (p @ ''_'' @ ?name) ?t"
    using assms
    by (simp add: sql_task_step_def extract_sql_statement_def Let_def transformations_sql_assets
        split: prod.splits)
  then show ?thesis
    by (intro exI [of _ ?t]) simp
qed

theorem sql_task_transformation_witness:
  "find (\<lambda>prop. contains ''SQL'' (attr_get_default prop ''name'' ''''))
     (findall_tag insert_task ''property'')
     = Some (Element ''property'' [(''name'', ''SQLStatement'')]
               (Some ''INSERT INTO DimCustomer SELECT * FROM StgCustomer'') [])
   \<and> xml_text (Element ''property'' [(''name'', ''SQLStatement'')]
               (Some ''INSERT INTO DimCustomer SELECT * FROM StgCustomer'') [])
     = Some ''INSERT INTO DimCustomer SELECT * FROM StgCustomer''
   \<and> ''INSERT INTO DimCustomer SELECT * FROM StgCustomer'' \<noteq> []
   \<and> (\<exists>t. transformations (sql_task_step ''p'' init insert_task)
              = dict_set (transformations init)
                  (''p'' @ ''_'' @ attr_get_default insert_task (dts ''ObjectName'') ''Unknown SQL Task'') t
            \<and> t_id t = ''p'' @ ''_'' @ attr_get_default insert_task (dts ''ObjectName'') ''Unknown SQL Task''
            \<and> t_name t = attr_get_default insert_task (dts ''ObjectName'') ''Unknown SQL Task''
            \<and> t_type t = ''sql_task''
            \<and> t_transformation_logic t = Some (take 500 ''INSERT INTO DimCustomer SELECT * FROM StgCustomer''))"
proof -
  have 1: "find (\<lambda>prop. contains ''SQL'' (attr_get_default prop ''name'' ''''))
     (findall_tag insert_task ''property'')
     = Some (Element ''property'' [(''name'', ''SQLStatement'')]
               (Some ''INSERT INTO DimCustomer SELECT * FROM StgCustomer'') [])"
    by code_simp
  have 2: "xml_text (Element ''property'' [(''name'', ''SQLStatement'')]
               (Some ''INSERT INTO DimCustomer SELECT * FROM StgCustomer'') [])
     = Some ''INSERT INTO DimCustomer SELECT * FROM StgCustomer''"
    by simp
  have 3: "''INSERT INTO DimCustomer SELECT * FROM StgCustomer'' \<noteq> []" by simp
  from 1 2 3 sql_task_transformation [OF 1 2 3, of "''p''" init] show ?thesis
    by blast
qed

text \<open>
  A property named \<open>SqlStatementSource\<close> is not found, so the task yields no
  transformation; and where the property is found, the transformation's source and
  target assets stay \<open>None\<close> although the resolver finds a table of each kind.
\<close>

theorem sql_task_counterexample:
  "transformations (sql_task_step ''p'' init insert_task_mixed_case) = []
   \<and> map (\<lambda>e. t_source_assets (snd e)) (transformations (sql_task_step ''p'' init insert_task)) = [None]
   \<and> map (\<lambda>e. t_target_assets (snd e)) (transformations (sql_task_step ''p'' init insert_task)) = [None]
   \<and> parse_sql_tables ''INSERT INTO DimCustomer SELECT * FROM StgCustomer''
       = ([''STGCUSTOMER''], [''DIMCUSTOMER''])"
  by code_simp

text \<open>
  C6. A document whose only data flow is \<open>LoadCustomers\<close>, with one source component and
  one destination component of different names and no query task, extracted by a new
  extractor, yields the two assets and the one transformation that joins them.
\<close>

theorem single_data_flow_extraction:
  assumes "findall_attr root (dts ''Executable'') (dts ''ExecutableType'') ''Microsoft.Pipeline'' = [df]"
    and "findall_attr root (dts ''Executable'') (dts ''ExecutableType'') ''Microsoft.ExecuteSQLTask'' = []"
    and "attr_get df (dts ''ObjectName'') = Some ''LoadCustomers''"
    and "findall_attr df ''component'' ''componentClassID'' ''Microsoft.OLEDBSource'' = [s]"
    and "findall_attr df ''component'' ''componentClassID'' ''Microsoft.OLEDBDestination'' = [d]"
    and "attr_get_default s ''name'' ''Unknown Source'' = sn"
    and "attr_get_default d ''name'' ''Unknown Destination'' = dn"
    and "sn \<noteq> dn"
  shows "snd (extract_from_dtsx init p (Document root)) =
           ([(p @ ''_'' @ sn,
              \<lparr>a_id = p @ ''_'' @ sn, a_name = py_or (extract_table_name s) sn,
               a_type = ''source_table'', a_schema = Some ''dbo'', a_database = None,
               a_columns = None\<rparr>),
             (p @ ''_'' @ dn,
              \<lparr>a_id = p @ ''_'' @ dn, a_name = py_or (extract_table_name d) dn,
               a_type = ''target_table'', a_schema = Some ''dbo'', a_database = None,
               a_columns = None\<rparr>)],
            [(p @ ''_LoadCustomers'',
              \<lparr>t_id = p @ ''_LoadCustomers'', t_name = ''LoadCustomers'', t_type = ''ssis_dataflow'',
               t_source_assets = Some [p @ ''_'' @ sn], t_target_assets = Some [p @ ''_'' @ dn],
               t_transformation_logic = None\<rparr>)])"
  using assms
  by (simp add: extract_from_dtsx_def extract_try_def parse_def extract_data_flows_def
      extract_sql_tasks_def data_flow_step_def source_step_def dest_step_def Let_def init_def
      dict_set_def ids_of_type_def dict_values_def attr_get_default_def)

theorem single_data_flow_extraction_witness:
  "findall_attr load_customers (dts ''Executable'') (dts ''ExecutableType'') ''Microsoft.Pipeline''
     = [dataflow ''LoadCustomers''
          [component ''Microsoft.OLEDBSource'' ''StgCustomer'',
           component ''Microsoft.OLEDBDestination'' ''DimCustomer'']]
   \<and> findall_attr load_customers (dts ''Executable'') (dts ''ExecutableType'')
       ''Microsoft.ExecuteSQLTask'' = []
   \<and> ''StgCustomer'' \<noteq> ''DimCustomer''
   \<and> snd (extract_from_dtsx init ''p'' (Document load_customers)) =
       ([(''p_StgCustomer'',
          \<lparr>a_id = ''p_StgCustomer'', a_name = ''StgCustomer'', a_type = ''source_table'',
           a_schema = Some ''dbo'', a_database = None, a_columns = None\<rparr>),
         (''p_DimCustomer'',
          \<lparr>a_id = ''p_DimCustomer'', a_name = ''DimCustomer'', a_type = ''target_table'',
           a_schema = Some ''dbo'', a_database = None, a_columns = None\<rparr>)],
        [(''p_LoadCustomers'',
          \<lparr>t_id = ''p_LoadCustomers'', t_name = ''LoadCustomers'', t_type = ''ssis_dataflow'',
           t_source_assets = Some [''p_StgCustomer''], t_target_assets = Some [''p_DimCustomer''],
           t_transformation_logic = None\<rparr>)])"
proof -
  let ?s = "component ''Microsoft.OLEDBSource'' ''StgCustomer''"
  let ?d = "component ''Microsoft.OLEDBDestination'' ''DimCustomer''"
  let ?df = "dataflow ''LoadCustomers'' [?s, ?d]"
  have 1: "findall_attr load_customers (dts ''Executable'') (dts ''ExecutableType'')
             ''Microsoft.Pipeline'' = [?df]" by code_simp
  have 2: "findall_attr load_customers (dts ''Executable'') (dts ''ExecutableType'')
             ''Microsoft.ExecuteSQLTask'' = []" by code_simp
  have 3: "attr_get ?df (dts ''ObjectName'') = Some ''LoadCustomers''" by code_simp
  have 4: "findall_attr ?df ''component'' ''componentClassID'' ''Microsoft.OLEDBSource'' = [?s]"
    by code_simp
  have 5: "findall_attr ?df ''component'' ''componentClassID'' ''Microsoft.OLEDBDestination'' = [?d]"
    by code_simp
  have 6: "attr_get_default ?s ''name'' ''Unknown Source'' = ''StgCustomer''" by code_simp
  have 7: "attr_get_default ?d ''name'' ''Unknown Destination'' = ''DimCustomer''" by code_simp
  have 8: "''StgCustomer'' \<noteq> ''DimCustomer''" by simp
  have 9: "py_or (extract_table_name ?s) ''StgCustomer'' = ''StgCustomer''" by code_simp
  have 10: "py_or (extract_table_name ?d) ''DimCustomer'' = ''DimCustomer''" by code_simp
  from single_data_flow_extraction [OF 1 2 3 4 5 6 7 8, of "''p''"] 1 2 8 9 10
  show ?thesis by simp
qed

text \<open>
  When the two components have the same name they share an id: the destination replaces
  the source, one asset is left and the transformation has no source.
\<close>

theorem single_data_flow_counterexample:
  "snd (extract_from_dtsx init ''p'' (Document same_name_flow)) =
     ([(''p_X'', \<lparr>a_id = ''p_X'', a_name = ''X'', a_type = ''target_table'',
                  a_schema = Some ''dbo'', a_database = None, a_columns = None\<rparr>)],
      [(''p_LoadCustomers'',
        \<lparr>t_id = ''p_LoadCustomers'', t_name = ''LoadCustomers'', t_type = ''ssis_dataflow'',
         t_source_assets = Some [], t_target_assets = Some [''p_X''],
         t_transformation_logic = None\<rparr>)])"
  by code_simp

section \<open>Repeated calls\<close>

lemma dict_keys_set': "dict_keys (dict_set d k v) = add_key (dict_keys d) k"
  by (induction d) (auto simp: dict_keys_def dict_set_def add_key_def)

lemma dict_keys_update:
  "dict_keys (dict_update d es) = foldl add_key (dict_keys d) (map fst es)"
  unfolding dict_update_def
  by (induction es arbitrary: d) (auto simp: dict_keys_set')

lemma set_foldl_add_key: "set (foldl add_key ks xs) = set ks \<union> set xs"
  by (induction xs arbitrary: ks) (auto simp: add_key_def)

lemma foldl_add_key_present: "set xs \<subseteq> set ks \<Longrightarrow> foldl add_key ks xs = ks"
  by (induction xs) (auto simp: add_key_def)

lemma foldl_add_key_twice: "foldl add_key (foldl add_key ks xs) xs = foldl add_key ks xs"
  by (rule foldl_add_key_present) (simp add: set_foldl_add_key)

lemma map_of_dict_update: "map_of (dict_update d es) = map_of d ++ map_of (rev es)"
  unfolding dict_update_def
proof (induction es arbitrary: d)
  case Nil
  then show ?case by simp
next
  case (Cons e es)
  obtain k v where e: "e = (k, v)" by (cases e)
  have 1: "map_of (dict_set d k v) = (map_of d)(k \<mapsto> v)"
    by (simp add: dict_set_def update_conv')
  have 2: "map_of (rev (e # es)) = map_of [(k, v)] ++ map_of (rev es)"
    using e by (simp only: rev.simps map_of_append)
  have "foldl (\<lambda>acc (k, v). dict_set acc k v) d (e # es)
          = foldl (\<lambda>acc (k, v). dict_set acc k v) (dict_set d k v) es"
    using e by simp
  then have "map_of (foldl (\<lambda>acc (k, v). dict_set acc k v) d (e # es))
          = map_of (dict_set d k v) ++ map_of (rev es)"
    using Cons [of "dict_set d k v"] by (simp only:)
  also have "\<dots> = (map_of d)(k \<mapsto> v) ++ map_of (rev es)"
    by (simp only: 1)
  also have "\<dots> = map_of d ++ (map_of [(k, v)] ++ map_of (rev es))"
    by (rule ext) (simp add: map_add_def split: option.splits)
  finally show ?case using 2 by (simp only:)
qed

lemma dict_get_update_twice:
  "dict_get (dict_update (dict_update d es) es) = dict_get (dict_update d es)"
  by (rule ext) (simp add: dict_get_def map_of_dict_update map_add_def split: option.splits)

lemma dict_update_append: "dict_update (dict_update d xs) ys = dict_update d (xs @ ys)"
  by (simp add: dict_update_def)

lemma writes_assets_comp:
  "writes_assets f \<Longrightarrow> writes_assets g \<Longrightarrow> writes_assets (\<lambda>st. g (f st))"
  unfolding writes_assets_def
proof -
  assume "\<exists>es. \<forall>st. assets (f st) = dict_update (assets st) es"
    and "\<exists>es. \<forall>st. assets (g st) = dict_update (assets st) es"
  then obtain es1 es2 where 1: "\<forall>st. assets (f st) = dict_update (assets st) es1"
    and 2: "\<forall>st. assets (g st) = dict_update (assets st) es2" by blast
  have "\<forall>st. assets (g (f st)) = dict_update (assets st) (es1 @ es2)"
    using 1 2 by (simp add: dict_update_append)
  then show "\<exists>es. \<forall>st. assets (g (f st)) = dict_update (assets st) es" by blast
qed

lemma writes_assets_id: "writes_assets (\<lambda>st. st)"
  unfolding writes_assets_def by (intro exI [of _ "[]"]) (simp add: dict_update_def)

lemma writes_assets_foldl:
  assumes "\<And>x. writes_assets (\<lambda>st. step st x)"
  shows "writes_assets (\<lambda>st. foldl step st xs)"
proof (induction xs rule: rev_induct)
  case Nil
  then show ?case by (simp add: writes_assets_id)
next
  case (snoc x xs)
  have "writes_assets (\<lambda>st. step (foldl step st xs) x)"
    using snoc assms by (rule writes_assets_comp)
  then show ?case by simp
qed

lemma writes_ids_comp:
  "writes_ids f \<Longrightarrow> writes_ids g \<Longrightarrow> writes_ids (\<lambda>st. g (f st))"
  unfolding writes_ids_def
proof -
  assume "\<exists>ks. \<forall>st. dict_keys (transformations (f st)) = foldl add_key (dict_keys (transformations st)) ks"
    and "\<exists>ks. \<forall>st. dict_keys (transformations (g st)) = foldl add_key (dict_keys (transformations st)) ks"
  then obtain k1 k2 where
    1: "\<forall>st. dict_keys (transformations (f st)) = foldl add_key (dict_keys (transformations st)) k1"
    and 2: "\<forall>st. dict_keys (transformations (g st)) = foldl add_key (dict_keys (transformations st)) k2"
    by blast
  have "\<forall>st. dict_keys (transformations (g (f st)))
          = foldl add_key (dict_keys (transformations st)) (k1 @ k2)"
    using 1 2 by simp
  then show "\<exists>ks. \<forall>st. dict_keys (transformations (g (f st)))
          = foldl add_key (dict_keys (transformations st)) ks" by blast
qed

lemma writes_ids_id: "writes_ids (\<lambda>st. st)"
  unfolding writes_ids_def by (intro exI [of _ "[]"]) simp

lemma writes_ids_foldl:
  assumes "\<And>x. writes_ids (\<lambda>st. step st x)"
  shows "writes_ids (\<lambda>st. foldl step st xs)"
proof (induction xs rule: rev_induct)
  case Nil
  then show ?case by (simp add: writes_ids_id)
next
  case (snoc x xs)
  have "writes_ids (\<lambda>st. step (foldl step st xs) x)"
    using snoc assms by (rule writes_ids_comp)
  then show ?case by simp
qed

text \<open>Each step of a call, and so the call, writes in this sense.\<close>

lemma writes_assets_set:
  "(\<And>st. assets (f st) = dict_set (assets st) k v) \<Longrightarrow> writes_assets f"
  unfolding writes_assets_def by (intro exI [of _ "[(k, v)]"]) (simp add: dict_update_def)

lemma writes_assets_source_step: "writes_assets (\<lambda>st. source_step p st c)"
  by (rule writes_assets_set) (simp add: source_step_def Let_def)

lemma writes_assets_dest_step: "writes_assets (\<lambda>st. dest_step p st c)"
  by (rule writes_assets_set) (simp add: dest_step_def Let_def)

lemma writes_assets_sql_asset_step: "writes_assets (\<lambda>st. sql_asset_step p ty st t)"
  by (rule writes_assets_set) (simp add: sql_asset_step_def Let_def)

lemma writes_assets_same:
  "writes_assets f \<Longrightarrow> (\<And>st. assets (g st) = assets (f st)) \<Longrightarrow> writes_assets g"
  by (simp add: writes_assets_def)

lemma writes_assets_data_flow_step: "writes_assets (\<lambda>st. data_flow_step p st df)"
proof -
  let ?srcs = "findall_attr df ''component'' ''componentClassID'' ''Microsoft.OLEDBSource''"
  let ?dsts = "findall_attr df ''component'' ''componentClassID'' ''Microsoft.OLEDBDestination''"
  have 1: "writes_assets (\<lambda>st. foldl (source_step p) st ?srcs)"
    by (rule writes_assets_foldl) (rule writes_assets_source_step)
  have 2: "writes_assets (\<lambda>st. foldl (dest_step p) st ?dsts)"
    by (rule writes_assets_foldl) (rule writes_assets_dest_step)
  from 1 2 have "writes_assets (\<lambda>st. foldl (dest_step p) (foldl (source_step p) st ?srcs) ?dsts)"
    by (rule writes_assets_comp)
  then show ?thesis
    by (rule writes_assets_same) (simp add: data_flow_step_def Let_def)
qed

lemma writes_assets_sql_task_step: "writes_assets (\<lambda>st. sql_task_step p st task)"
proof (cases "extract_sql_statement task")
  case None
  then show ?thesis by (simp add: sql_task_step_def writes_assets_id)
next
  case (Some sql)
  show ?thesis
  proof (cases "sql = []")
    case True
    with Some show ?thesis by (simp add: sql_task_step_def writes_assets_id)
  next
    case False
    have 1: "writes_assets (\<lambda>st. foldl (sql_asset_step p ''source_table'') st
               (fst (parse_sql_tables sql)))"
      by (rule writes_assets_foldl) (rule writes_assets_sql_asset_step)
    have 2: "writes_assets (\<lambda>st. foldl (sql_asset_step p ''target_table'') st
               (snd (parse_sql_tables sql)))"
      by (rule writes_assets_foldl) (rule writes_assets_sql_asset_step)
    from 1 2 have "writes_assets (\<lambda>st. foldl (sql_asset_step p ''target_table'')
            (foldl (sql_asset_step p ''source_table'') st (fst (parse_sql_tables sql)))
            (snd (parse_sql_tables sql)))"
      by (rule writes_assets_comp)
    then show ?thesis
      by (rule writes_assets_same)
        (simp add: sql_task_step_def Let_def Some False split: prod.splits)
  qed
qed

lemma writes_assets_extract:
  "writes_assets (\<lambda>st. extract_sql_tasks (extract_data_flows st root p) root p)"
proof -
  have 1: "writes_assets (\<lambda>st. extract_data_flows st root p)"
    unfolding extract_data_flows_def
    by (rule writes_assets_foldl) (rule writes_assets_data_flow_step)
  have 2: "writes_assets (\<lambda>st. extract_sql_tasks st root p)"
    unfolding extract_sql_tasks_def
    by (rule writes_assets_foldl) (rule writes_assets_sql_task_step)
  from 1 2 show ?thesis by (rule writes_assets_comp)
qed

lemma transformations_source_steps:
  "transformations (foldl (source_step p) st cs) = transformations st"
  by (induction cs arbitrary: st) (auto simp: source_step_def Let_def)

lemma transformations_dest_steps:
  "transformations (foldl (dest_step p) st cs) = transformations st"
  by (induction cs arbitrary: st) (auto simp: dest_step_def Let_def)

lemma transformations_sql_asset_steps:
  "transformations (foldl (sql_asset_step p ty) st ts) = transformations st"
  by (induction ts arbitrary: st) (auto simp: sql_asset_step_def Let_def)

lemma writes_ids_data_flow_step: "writes_ids (\<lambda>st. data_flow_step p st df)"
  unfolding writes_ids_def
  by (intro exI [of _ "[p @ ''_'' @ attr_get_default df (dts ''ObjectName'') ''Unknown'']"])
    (simp add: data_flow_step_def Let_def dict_keys_set' transformations_source_steps
      transformations_dest_steps)

lemma writes_ids_sql_task_step: "writes_ids (\<lambda>st. sql_task_step p st task)"
proof (cases "extract_sql_statement task")
  case None
  then show ?thesis by (simp add: sql_task_step_def writes_ids_id)
next
  case (Some sql)
  show ?thesis
  proof (cases "sql = []")
    case True
    with Some show ?thesis by (simp add: sql_task_step_def writes_ids_id)
  next
    case False
    show ?thesis
      unfolding writes_ids_def
      by (intro exI [of _ "[p @ ''_'' @ attr_get_default task (dts ''ObjectName'') ''Unknown SQL Task'']"])
        (simp add: sql_task_step_def Let_def Some False dict_keys_set'
          transformations_sql_asset_steps split: prod.splits)
  qed
qed

lemma writes_ids_extract:
  "writes_ids (\<lambda>st. extract_sql_tasks (extract_data_flows st root p) root p)"
proof -
  have 1: "writes_ids (\<lambda>st. extract_data_flows st root p)"
    unfolding extract_data_flows_def
    by (rule writes_ids_foldl) (rule writes_ids_data_flow_step)
  have 2: "writes_ids (\<lambda>st. extract_sql_tasks st root p)"
    unfolding extract_sql_tasks_def
    by (rule writes_ids_foldl) (rule writes_ids_sql_task_step)
  from 1 2 show ?thesis by (rule writes_ids_comp)
qed

lemma fst_extract_from_dtsx:
  "fst (extract_from_dtsx st p f) =
     (case f of Document root \<Rightarrow> extract_sql_tasks (extract_data_flows st root p) root p | _ \<Rightarrow> st)"
  by (simp add: extract_from_dtsx_def extract_try_def parse_def Let_def split: dtsx_file.splits)

lemma writes_assets_call: "writes_assets (\<lambda>st. fst (extract_from_dtsx st p f))"
  by (cases f) (simp_all add: fst_extract_from_dtsx writes_assets_id writes_assets_extract)

lemma writes_ids_call: "writes_ids (\<lambda>st. fst (extract_from_dtsx st p f))"
  by (cases f) (simp_all add: fst_extract_from_dtsx writes_ids_id writes_ids_extract)

text \<open>
  A second call for the same file, right after the first, leaves the ids of both
  dictionaries as they were after the first call, in the same order, and the same asset
  under every asset id.
\<close>

lemma re_extraction_keeps_ids:
  "dict_keys (assets (fst (extract_from_dtsx (fst (extract_from_dtsx st p f)) p f)))
     = dict_keys (assets (fst (extract_from_dtsx st p f)))
   \<and> dict_keys (transformations (fst (extract_from_dtsx (fst (extract_from_dtsx st p f)) p f)))
     = dict_keys (transformations (fst (extract_from_dtsx st p f)))
   \<and> dict_get (assets (fst (extract_from_dtsx (fst (extract_from_dtsx st p f)) p f)))
     = dict_get (assets (fst (extract_from_dtsx st p f)))"
proof -
  from writes_assets_call [of p f] obtain es where
    a: "\<And>st. assets (fst (extract_from_dtsx st p f)) = dict_update (assets st) es"
    unfolding writes_assets_def by blast
  from writes_ids_call [of p f] obtain ks where
    t: "\<And>st. dict_keys (transformations (fst (extract_from_dtsx st p f)))
          = foldl add_key (dict_keys (transformations st)) ks"
    unfolding writes_ids_def by blast
  show ?thesis
    by (simp add: a t dict_keys_update foldl_add_key_twice dict_get_update_twice)
qed

text \<open>
  C8. The edge set is not the same after the second extraction. A data flow is given
  every \<open>source_table\<close> and \<open>target_table\<close> asset the extractor holds when it is built,
  not the assets of its own components: in \<open>two_flows\<close> the flow \<open>DF2\<close>, whose only
  component is \<open>S2\<close>, lists \<open>S1\<close> as well; \<open>DF1\<close> is built while \<open>S1\<close> is the only
  asset, and built again by the second call when \<open>S2\<close> is there too, so that the graph
  gains a \<open>FEEDS_INTO\<close> relationship from \<open>S2\<close> to \<open>DF1\<close>.
\<close>

theorem re_extraction_changes_edges:
  "map_option t_source_assets (dict_get (transformations two_flows_once) ''p_DF2'')
     = Some (Some [''p_S1'', ''p_S2''])
   \<and> map_option t_source_assets (dict_get (transformations two_flows_once) ''p_DF1'')
     = Some (Some [''p_S1''])
   \<and> map_option t_source_assets (dict_get (transformations two_flows_twice) ''p_DF1'')
     = Some (Some [''p_S1'', ''p_S2''])
   \<and> rels (create_lineage_graph (assets two_flows_once) (transformations two_flows_once))
     = [\<lparr>r_type = FEEDS_INTO, r_start = 0, r_end = 2\<rparr>,
        \<lparr>r_type = FEEDS_INTO, r_start = 0, r_end = 3\<rparr>,
        \<lparr>r_type = FEEDS_INTO, r_start = 1, r_end = 3\<rparr>]
   \<and> rels (create_lineage_graph (assets two_flows_twice) (transformations two_flows_twice))
     = [\<lparr>r_type = FEEDS_INTO, r_start = 0, r_end = 2\<rparr>,
        \<lparr>r_type = FEEDS_INTO, r_start = 1, r_end = 2\<rparr>,
        \<lparr>r_type = FEEDS_INTO, r_start = 0, r_end = 3\<rparr>,
        \<lparr>r_type = FEEDS_INTO, r_start = 1, r_end = 3\<rparr>]"
  by code_simp



end
